theory Spec2Isabelle
  imports Main "HOL-Library.Word"
begin

section \<open>Ring key space\<close>

text \<open>
  An \<open>OverlayKey\<close> is a fixed-width identifier on a ring: a machine word of some width
  \<open>LENGTH('a)\<close>, with wrap-around subtraction. The class itself, \<open>KeyUniRingMetric\<close>
  and \<open>OverlayKey::isBetween\<close> live outside \<open>EpiChordIterativeLookup.cc\<close>.
\<close>

definition distance :: "'a::len word \<Rightarrow> 'a word \<Rightarrow> 'a word" where
  \<comment> \<open>Modelled from the spec: \<open>KeyUniRingMetric::distance\<close> is not in the source file. The
      metric is directional (clockwise); \<open>distance x y\<close> is the way from \<open>x\<close> clockwise to
      \<open>y\<close>, so that the maximum of \<open>distance target k\<close> is "the closest node before the key"
      and its minimum "the closest node after the key", as the comments of
      \<open>getPreceedingEntry\<close> and \<open>getSucceedingEntry\<close> say.\<close>
  "distance x y = y - x"

definition getMax :: "'a::len word" where
  \<comment> \<open>Modelled from the spec: \<open>OverlayKey::getMax\<close>, the maximum-distance sentinel (all bits set).\<close>
  "getMax = - 1"

definition clockwiseSteps :: "'a::len word \<Rightarrow> 'a word \<Rightarrow> nat" where
  \<comment> \<open>The number of steps (at least one) after which a walk that starts at \<open>a\<close> and goes
      clockwise reaches \<open>x\<close>; a full turn when \<open>x = a\<close>.\<close>
  "clockwiseSteps a x = (if x = a then 2 ^ LENGTH('a) else unat (distance a x))"

definition isBetween :: "'a::len word \<Rightarrow> 'a word \<Rightarrow> 'a word \<Rightarrow> bool" where
  \<comment> \<open>Modelled from the spec: \<open>OverlayKey::isBetween\<close> is not in the source file.
      \<open>isBetween k keyA keyB\<close> is \<open>k.isBetween(keyA, keyB)\<close>: walking clockwise from \<open>keyA\<close>
      one reaches \<open>k\<close> before reaching \<open>keyB\<close> (strictly between).\<close>
  "isBetween k keyA keyB = (clockwiseSteps keyA k < clockwiseSteps keyA keyB)"

section \<open>Data model\<close>

record 'k NodeHandle =
  \<comment> \<open>Modelled from the spec: the peer handle is declared outside the source file: a ring
      key and a contact address, compared by value; \<open>isUnspecified\<close> is the test of a
      valid (non-empty) identity.\<close>
  key :: 'k
  address :: nat
  isUnspecified :: bool

record 'k LookupEntry =
  handle :: "'k NodeHandle"
  alreadyUsed :: bool

record 'k FindNodeResponse =
  srcNode :: "'k NodeHandle"
  closestNodes :: "'k NodeHandle list"

datatype error = ArrayIndexOutOfRange

definition getClosestNodesArraySize :: "'k FindNodeResponse \<Rightarrow> nat" where
  "getClosestNodesArraySize msg = length (closestNodes msg)"

definition getClosestNodes :: "'k FindNodeResponse \<Rightarrow> nat \<Rightarrow> error + 'k NodeHandle" where
  \<comment> \<open>Modelled from the spec: the accessor of the response's array is declared outside the
      source file; a read at or beyond \<open>getClosestNodesArraySize\<close> has no entry to return.\<close>
  "getClosestNodes msg k =
     (if k < length (closestNodes msg) then Inr (closestNodes msg ! k)
      else Inl ArrayIndexOutOfRange)"

text \<open>
  The members of the base class \<open>IterativePathLookup\<close> that the file reads and writes
  (\<open>nextHops\<close>, \<open>success\<close>, \<open>finished\<close>), together with what it reaches through the
  \<open>lookup\<close> pointer: the target key, the visited and dead peers, and the siblings that
  \<open>addSibling\<close> has been given, in call order.
\<close>

record 'k IterativePathLookup =
  nextHops :: "'k LookupEntry list"
  success :: bool
  finished :: bool
  lookupKey :: 'k
  visitedNodes :: "'k NodeHandle set"
  deadNodes :: "'k NodeHandle set"
  siblings :: "'k NodeHandle list"

text \<open>
  The derived class: the base object, the four bracket slots, and the calls of
  \<open>epichord->sendFalseNegWarning\<close> made so far, in call order.
\<close>

record 'k EpiChordIterativePathLookup =
  base :: "'k IterativePathLookup"
  bestPredecessor :: "'k NodeHandle"
  bestPredecessorsSuccessor :: "'k NodeHandle"
  bestSuccessor :: "'k NodeHandle"
  bestSuccessorsPredecessor :: "'k NodeHandle"
  falseNegWarnings :: "('k NodeHandle \<times> 'k NodeHandle \<times> 'k NodeHandle list) list"

definition getVisited :: "'k IterativePathLookup \<Rightarrow> 'k NodeHandle \<Rightarrow> bool" where
  "getVisited l h = (h \<in> visitedNodes l)"

definition getDead :: "'k IterativePathLookup \<Rightarrow> 'k NodeHandle \<Rightarrow> bool" where
  "getDead l h = (h \<in> deadNodes l)"

definition addSibling :: "'k NodeHandle \<Rightarrow> 'k IterativePathLookup \<Rightarrow> 'k IterativePathLookup" where
  "addSibling h l = l\<lparr>siblings := siblings l @ [h]\<rparr>"

definition sendFalseNegWarning ::
  "'k NodeHandle \<Rightarrow> 'k NodeHandle \<Rightarrow> 'k NodeHandle list \<Rightarrow>
   'k EpiChordIterativePathLookup \<Rightarrow> 'k EpiChordIterativePathLookup" where
  "sendFalseNegWarning bestPred bestSucc dn s =
     s\<lparr>falseNegWarnings := falseNegWarnings s @ [(bestPred, bestSucc, dn)]\<rparr>"

section \<open>Construction\<close>

text \<open>
  The constructor of \<open>EpiChordIterativePathLookup\<close>: both brackets start at the local node,
  their claimed neighbours at the heads of its successor and predecessor lists.
\<close>

definition newPathLookup ::
  "'k IterativePathLookup \<Rightarrow> 'k NodeHandle \<Rightarrow> 'k NodeHandle \<Rightarrow> 'k NodeHandle \<Rightarrow>
   'k EpiChordIterativePathLookup" where
  "newPathLookup l thisNode successorNode predecessorNode =
     \<lparr>base = l\<lparr>nextHops := []\<rparr>,
      bestPredecessor = thisNode,
      bestPredecessorsSuccessor = successorNode,
      bestSuccessor = thisNode,
      bestSuccessorsPredecessor = predecessorNode,
      falseNegWarnings = []\<rparr>"

section \<open>Scanning the candidate pool\<close>

fun preceedingLoop ::
  "bool \<Rightarrow> bool \<Rightarrow> 'a::len word IterativePathLookup \<Rightarrow> 'a word LookupEntry list \<Rightarrow>
   'a word LookupEntry option \<Rightarrow> 'a word \<Rightarrow> 'a word LookupEntry option" where
  "preceedingLoop incDead incUsed l [] entry maxDistance = entry"
| "preceedingLoop incDead incUsed l (it # rest) entry maxDistance =
     (if \<not> incDead \<and> getDead l (handle it) then
        preceedingLoop incDead incUsed l rest entry maxDistance
      else if \<not> incUsed \<and> alreadyUsed it then
        preceedingLoop incDead incUsed l rest entry maxDistance
      else if distance (lookupKey l) (key (handle it)) \<le> maxDistance then
        preceedingLoop incDead incUsed l rest entry maxDistance
      else
        preceedingLoop incDead incUsed l rest (Some it)
          (distance (lookupKey l) (key (handle it))))"

definition getPreceedingEntry ::
  "bool \<Rightarrow> bool \<Rightarrow> 'a::len word EpiChordIterativePathLookup \<Rightarrow> 'a word LookupEntry option" where
  "getPreceedingEntry incDead incUsed s =
     preceedingLoop incDead incUsed (base s) (nextHops (base s)) None 0"

fun succeedingLoop ::
  "bool \<Rightarrow> bool \<Rightarrow> 'a::len word IterativePathLookup \<Rightarrow> 'a word LookupEntry list \<Rightarrow>
   'a word LookupEntry option \<Rightarrow> 'a word \<Rightarrow> 'a word LookupEntry option" where
  "succeedingLoop incDead incUsed l [] entry minDistance = entry"
| "succeedingLoop incDead incUsed l (it # rest) entry minDistance =
     (if \<not> incDead \<and> getDead l (handle it) then
        succeedingLoop incDead incUsed l rest entry minDistance
      else if \<not> incUsed \<and> alreadyUsed it then
        succeedingLoop incDead incUsed l rest entry minDistance
      else if distance (lookupKey l) (key (handle it)) \<ge> minDistance then
        succeedingLoop incDead incUsed l rest entry minDistance
      else
        succeedingLoop incDead incUsed l rest (Some it)
          (distance (lookupKey l) (key (handle it))))"

definition getSucceedingEntry ::
  "bool \<Rightarrow> bool \<Rightarrow> 'a::len word EpiChordIterativePathLookup \<Rightarrow> 'a word LookupEntry option" where
  "getSucceedingEntry incDead incUsed s =
     succeedingLoop incDead incUsed (base s) (nextHops (base s)) None getMax"

definition defaultIncDead :: bool where
  \<comment> \<open>Modelled from the spec: the default arguments of \<open>getPreceedingEntry\<close> and
      \<open>getSucceedingEntry\<close> are declared in the header, which is not among the sources.
      The resolver scans the entries that are alive (dead ones are left out).\<close>
  "defaultIncDead = False"

definition defaultIncUsed :: bool where
  \<comment> \<open>Modelled from the spec: see \<open>defaultIncDead\<close>; entries that were already probed
      take part in the scan (a visited entry is one that was probed and answered).\<close>
  "defaultIncUsed = True"

section \<open>The false-negative resolver\<close>

definition findDeadNodes :: "'k IterativePathLookup \<Rightarrow> 'k NodeHandle list" where
  \<comment> \<open>The loop "Find all dead nodes": the handles of the pool's dead entries, in pool order.\<close>
  "findDeadNodes l = filter (getDead l) (map handle (nextHops l))"

definition concludeLookup ::
  "'k EpiChordIterativePathLookup \<Rightarrow> 'k EpiChordIterativePathLookup" where
  \<comment> \<open>The tail of \<open>checkFalseNegative\<close>, from the allocation of \<open>deadNodes\<close> on.\<close>
  "concludeLookup s =
     (let dn = findDeadNodes (base s);
          s1 = (if dn \<noteq> [] then sendFalseNegWarning (bestPredecessor s) (bestSuccessor s) dn s
                else s);
          s2 = s1\<lparr>base := addSibling (bestSuccessor s1) (base s1)\<rparr>
      in s2\<lparr>base := (base s2)\<lparr>finished := True, success := True\<rparr>\<rparr>)"

definition checkFalseNegative ::
  "'a::len word EpiChordIterativePathLookup \<Rightarrow> 'a word EpiChordIterativePathLookup" where
  "checkFalseNegative s =
     (if success (base s) then s
      else
        (case getPreceedingEntry defaultIncDead defaultIncUsed s of
           None \<Rightarrow> s
         | Some preceedingEntry \<Rightarrow>
             (case getSucceedingEntry defaultIncDead defaultIncUsed s of
                None \<Rightarrow> s
              | Some succeedingEntry \<Rightarrow>
                  if \<not> getVisited (base s) (handle preceedingEntry)
                     \<or> \<not> getVisited (base s) (handle succeedingEntry) then s
                  else
                    (let assumeSuccess =
                           (if bestSuccessor s = bestPredecessorsSuccessor s
                               \<or> bestPredecessor s = bestSuccessorsPredecessor s then True
                            else if getDead (base s) (bestPredecessorsSuccessor s)
                                    \<and> getDead (base s) (bestSuccessorsPredecessor s) then True
                            else success (base s));
                         assumeFinished =
                           (if bestSuccessor s = bestPredecessorsSuccessor s
                               \<or> bestPredecessor s = bestSuccessorsPredecessor s then True
                            else finished (base s))
                     in if \<not> assumeSuccess \<or> \<not> assumeFinished then s
                        else concludeLookup s))))"

section \<open>Response and timeout entry points\<close>

definition updateBrackets ::
  "'a::len word FindNodeResponse \<Rightarrow> 'a word EpiChordIterativePathLookup \<Rightarrow>
   error + 'a word EpiChordIterativePathLookup" where
  \<comment> \<open>The block of \<open>handleResponse\<close> between the \<open>finished\<close> guard and the call of the
      base class. A read out of range ends the handler: the result is the error alone,
      and the write to \<open>bestPredecessor\<close> or \<open>bestSuccessor\<close> that precedes the read is
      not part of it.\<close>
  "updateBrackets msg s =
     (let source = srcNode msg in
      if \<not> isUnspecified source \<and> getClosestNodesArraySize msg > 0 then
        if isBetween (key source) (key (bestPredecessor s)) (lookupKey (base s)) then
          (let s1 = s\<lparr>bestPredecessor := source\<rparr> in
           case getClosestNodes msg 0 of
             Inl e \<Rightarrow> Inl e
           | Inr n0 \<Rightarrow>
               if n0 = source then
                 (case getClosestNodes msg 2 of
                    Inl e \<Rightarrow> Inl e
                  | Inr n2 \<Rightarrow> Inr (s1\<lparr>bestPredecessorsSuccessor := n2\<rparr>))
               else Inr (s1\<lparr>bestPredecessorsSuccessor := n0\<rparr>))
        else if isBetween (key source) (lookupKey (base s)) (key (bestSuccessor s)) then
          (let s1 = s\<lparr>bestSuccessor := source\<rparr> in
           case getClosestNodes msg 0 of
             Inl e \<Rightarrow> Inl e
           | Inr n0 \<Rightarrow>
               if n0 = source then
                 (case getClosestNodes msg 1 of
                    Inl e \<Rightarrow> Inl e
                  | Inr n1 \<Rightarrow> Inr (s1\<lparr>bestSuccessorsPredecessor := n1\<rparr>))
               else Inr (s1\<lparr>bestSuccessorsPredecessor := n0\<rparr>))
        else Inr s
      else Inr s)"

text \<open>
  \<open>IterativePathLookup::handleResponse\<close>, \<open>IterativePathLookup::handleTimeout\<close> and
  \<open>IterativePathLookup::getNextEntry\<close> belong to the generic engine and are parameters
  here. They are methods of the base class: they act on the base object only, and see
  neither the bracket slots nor the overlay's warning primitive.
\<close>

definition handleResponse ::
  "('a::len word FindNodeResponse \<Rightarrow> 'a word IterativePathLookup \<Rightarrow> 'a word IterativePathLookup) \<Rightarrow>
   'a word FindNodeResponse \<Rightarrow> 'a word EpiChordIterativePathLookup \<Rightarrow>
   error + 'a word EpiChordIterativePathLookup" where
  "handleResponse baseHandleResponse msg s =
     (if finished (base s) then Inr s
      else
        (case updateBrackets msg s of
           Inl e \<Rightarrow> Inl e
         | Inr s1 \<Rightarrow>
             Inr (checkFalseNegative (s1\<lparr>base := baseHandleResponse msg (base s1)\<rparr>))))"

definition handleTimeout ::
  "('m \<Rightarrow> nat \<Rightarrow> int \<Rightarrow> 'a::len word IterativePathLookup \<Rightarrow> 'a word IterativePathLookup) \<Rightarrow>
   'm \<Rightarrow> nat \<Rightarrow> int \<Rightarrow> 'a word EpiChordIterativePathLookup \<Rightarrow>
   'a word EpiChordIterativePathLookup" where
  "handleTimeout baseHandleTimeout msg dest rpcId s =
     (if finished (base s) then s
      else checkFalseNegative (s\<lparr>base := baseHandleTimeout msg dest rpcId (base s)\<rparr>))"

section \<open>Next-hop selection\<close>

definition getNextEntry ::
  "('a::len word IterativePathLookup \<Rightarrow> 'a word LookupEntry option) \<Rightarrow>
   'a word EpiChordIterativePathLookup \<Rightarrow> 'a word LookupEntry option" where
  "getNextEntry baseGetNextEntry s =
     (case getSucceedingEntry False True s of
        Some entry \<Rightarrow> if \<not> alreadyUsed entry then Some entry else baseGetNextEntry (base s)
      | None \<Rightarrow> baseGetNextEntry (base s))"

section \<open>Event delivery\<close>

text \<open>
  One path lookup reacts to responses and timeouts, delivered one at a time in the
  engine's order. An out-of-range read ends the run.
\<close>

datatype ('k, 'm) event =
  Response "'k FindNodeResponse"
| Timeout 'm nat int

fun deliver ::
  "('a::len word FindNodeResponse \<Rightarrow> 'a word IterativePathLookup \<Rightarrow> 'a word IterativePathLookup) \<Rightarrow>
   ('m \<Rightarrow> nat \<Rightarrow> int \<Rightarrow> 'a word IterativePathLookup \<Rightarrow> 'a word IterativePathLookup) \<Rightarrow>
   ('a word, 'm) event \<Rightarrow> 'a word EpiChordIterativePathLookup \<Rightarrow>
   error + 'a word EpiChordIterativePathLookup" where
  "deliver baseHandleResponse baseHandleTimeout (Response msg) s =
     handleResponse baseHandleResponse msg s"
| "deliver baseHandleResponse baseHandleTimeout (Timeout msg dest rpcId) s =
     Inr (handleTimeout baseHandleTimeout msg dest rpcId s)"

fun deliverAll ::
  "('a::len word FindNodeResponse \<Rightarrow> 'a word IterativePathLookup \<Rightarrow> 'a word IterativePathLookup) \<Rightarrow>
   ('m \<Rightarrow> nat \<Rightarrow> int \<Rightarrow> 'a word IterativePathLookup \<Rightarrow> 'a word IterativePathLookup) \<Rightarrow>
   ('a word, 'm) event list \<Rightarrow> 'a word EpiChordIterativePathLookup \<Rightarrow>
   error + 'a word EpiChordIterativePathLookup" where
  "deliverAll baseHandleResponse baseHandleTimeout [] s = Inr s"
| "deliverAll baseHandleResponse baseHandleTimeout (ev # evs) s =
     (case deliver baseHandleResponse baseHandleTimeout ev s of
        Inl e \<Rightarrow> Inl e
      | Inr s' \<Rightarrow> deliverAll baseHandleResponse baseHandleTimeout evs s')"

section \<open>Vocabulary of the properties\<close>

definition eligible :: "bool \<Rightarrow> bool \<Rightarrow> 'k IterativePathLookup \<Rightarrow> 'k LookupEntry \<Rightarrow> bool" where
  \<comment> \<open>The entries a scan with the flags \<open>incDead\<close> and \<open>incUsed\<close> does not skip.\<close>
  "eligible incDead incUsed l e =
     ((incDead \<or> \<not> getDead l (handle e)) \<and> (incUsed \<or> \<not> alreadyUsed e))"

definition entryDistance :: "'a::len word IterativePathLookup \<Rightarrow> 'a word LookupEntry \<Rightarrow> 'a word" where
  \<comment> \<open>The distance a scan computes for an entry: clockwise from the target to its key.\<close>
  "entryDistance l e = distance (lookupKey l) (key (handle e))"

definition distanceBefore :: "'a::len word EpiChordIterativePathLookup \<Rightarrow> 'a word" where
  \<comment> \<open>How far \<open>bestPredecessor\<close> lies before the target (clockwise from it to the target).\<close>
  "distanceBefore s = distance (key (bestPredecessor s)) (lookupKey (base s))"

definition distanceAfter :: "'a::len word EpiChordIterativePathLookup \<Rightarrow> 'a word" where
  \<comment> \<open>How far \<open>bestSuccessor\<close> lies after the target (clockwise from the target to it).\<close>
  "distanceAfter s = distance (lookupKey (base s)) (key (bestSuccessor s))"

definition bracketsCorroborate :: "'k EpiChordIterativePathLookup \<Rightarrow> bool" where
  \<comment> \<open>The first test of the resolver: one bracket is the neighbour the other one claims.\<close>
  "bracketsCorroborate s =
     (bestSuccessor s = bestPredecessorsSuccessor s
      \<or> bestPredecessor s = bestSuccessorsPredecessor s)"

definition deadBlockers :: "'k EpiChordIterativePathLookup \<Rightarrow> bool" where
  \<comment> \<open>The second test of the resolver: both claimed neighbours are dead.\<close>
  "deadBlockers s =
     (getDead (base s) (bestPredecessorsSuccessor s)
      \<and> getDead (base s) (bestSuccessorsPredecessor s))"

definition surroundingVisited :: "'a::len word EpiChordIterativePathLookup \<Rightarrow> bool" where
  \<comment> \<open>The resolver finds a preceding and a succeeding entry, and both are visited.\<close>
  "surroundingVisited s =
     (case getPreceedingEntry defaultIncDead defaultIncUsed s of
        None \<Rightarrow> False
      | Some p \<Rightarrow>
          (case getSucceedingEntry defaultIncDead defaultIncUsed s of
             None \<Rightarrow> False
           | Some q \<Rightarrow> getVisited (base s) (handle p) \<and> getVisited (base s) (handle q)))"

definition concludes :: "'a::len word EpiChordIterativePathLookup \<Rightarrow> bool" where
  \<comment> \<open>The invocations of the resolver that pass every guard and reach its tail.\<close>
  "concludes s =
     (\<not> success (base s) \<and> surroundingVisited s
      \<and> (bracketsCorroborate s \<or> (deadBlockers s \<and> finished (base s))))"

definition noWider ::
  "'a::len word EpiChordIterativePathLookup \<Rightarrow> 'a word EpiChordIterativePathLookup \<Rightarrow> bool" where
  \<comment> \<open>From \<open>s\<close> to \<open>s'\<close> the target is the same, and a bracket whose key is not the
      target has moved no farther from the target and is still not on it.\<close>
  "noWider s s' =
     (lookupKey (base s') = lookupKey (base s)
      \<and> (key (bestPredecessor s) \<noteq> lookupKey (base s) \<longrightarrow>
           distanceBefore s' \<le> distanceBefore s
           \<and> key (bestPredecessor s') \<noteq> lookupKey (base s'))
      \<and> (key (bestSuccessor s) \<noteq> lookupKey (base s) \<longrightarrow>
           distanceAfter s' \<le> distanceAfter s
           \<and> key (bestSuccessor s') \<noteq> lookupKey (base s')))"


section \<open>A ring of 8-bit keys\<close>

text \<open>
  The scenario of the design notes: peers with the keys 10, 20, 30 and 40, the target
  key 25. Peer 30 is dead; peers 20 and 40 have answered.
\<close>

definition node :: "8 word \<Rightarrow> 8 word NodeHandle" where
  "node k = \<lparr>key = k, address = unat k, isUnspecified = False\<rparr>"

definition candidate :: "8 word \<Rightarrow> bool \<Rightarrow> 8 word LookupEntry" where
  "candidate k used = \<lparr>handle = node k, alreadyUsed = used\<rparr>"

definition ringLookup :: "8 word IterativePathLookup" where
  "ringLookup =
     \<lparr>nextHops = [candidate 20 True, candidate 30 True, candidate 40 True],
      success = False, finished = False, lookupKey = 25,
      visitedNodes = {node 20, node 40}, deadNodes = {node 30}, siblings = []\<rparr>"

definition ringState :: "8 word EpiChordIterativePathLookup" where
  \<comment> \<open>Both claimed neighbours are the dead peer 30; the brackets do not corroborate.\<close>
  "ringState =
     \<lparr>base = ringLookup,
      bestPredecessor = node 20, bestPredecessorsSuccessor = node 30,
      bestSuccessor = node 40, bestSuccessorsPredecessor = node 30,
      falseNegWarnings = []\<rparr>"

definition markVisited ::
  "8 word FindNodeResponse \<Rightarrow> 8 word IterativePathLookup \<Rightarrow> 8 word IterativePathLookup" where
  \<comment> \<open>A default response handling for the examples: it records the responder as visited.\<close>
  "markVisited msg l = l\<lparr>visitedNodes := insert (srcNode msg) (visitedNodes l)\<rparr>"

definition markDead ::
  "unit \<Rightarrow> nat \<Rightarrow> int \<Rightarrow> 8 word IterativePathLookup \<Rightarrow> 8 word IterativePathLookup" where
  \<comment> \<open>A default timeout handling for the examples: the peer at address \<open>dest\<close> is dead.\<close>
  "markDead msg dest rpcId l = l\<lparr>deadNodes := insert (node (of_nat dest)) (deadNodes l)\<rparr>"

definition corroboratedState :: "8 word EpiChordIterativePathLookup" where
  \<comment> \<open>Peer 20 claims peer 40 as its successor: the brackets corroborate.\<close>
  "corroboratedState = ringState\<lparr>bestPredecessorsSuccessor := node 40\<rparr>"

definition finishedState :: "8 word EpiChordIterativePathLookup" where
  \<comment> \<open>The ring state once the engine has finished the lookup by other means.\<close>
  "finishedState = ringState\<lparr>base := ringLookup\<lparr>finished := True\<rparr>\<rparr>"

definition aliveState :: "8 word EpiChordIterativePathLookup" where
  \<comment> \<open>Corroborating brackets over a pool without dead entries.\<close>
  "aliveState =
     corroboratedState\<lparr>base := ringLookup\<lparr>nextHops := [candidate 20 True, candidate 40 True],
                                            deadNodes := {}\<rparr>\<rparr>"

definition unvisitedState :: "8 word EpiChordIterativePathLookup" where
  \<comment> \<open>Peers 15 and 40 have answered and corroborate each other; peer 20, closer to the
      target, was probed and has not answered yet.\<close>
  "unvisitedState =
     \<lparr>base = \<lparr>nextHops = [candidate 15 True, candidate 20 True, candidate 40 True],
              success = False, finished = False, lookupKey = 25,
              visitedNodes = {node 15, node 40}, deadNodes = {}, siblings = []\<rparr>,
      bestPredecessor = node 15, bestPredecessorsSuccessor = node 40,
      bestSuccessor = node 40, bestSuccessorsPredecessor = node 15,
      falseNegWarnings = []\<rparr>"

definition ownKeyState :: "8 word EpiChordIterativePathLookup" where
  \<comment> \<open>A fresh path lookup of the peer with key 25 for the target 25, its own key.\<close>
  "ownKeyState =
     newPathLookup (ringLookup\<lparr>visitedNodes := {}, deadNodes := {}\<rparr>)
       (node 25) (node 30) (node 20)"

definition biasState :: "8 word EpiChordIterativePathLookup" where
  \<comment> \<open>Two alive candidates that were not probed: peer 23, two keys before the target,
      and peer 35, ten keys after it.\<close>
  "biasState =
     ringState\<lparr>base := ringLookup\<lparr>nextHops := [candidate 23 False, candidate 35 False],
                                      deadNodes := {}\<rparr>\<rparr>"

definition closestUnused :: "8 word IterativePathLookup \<Rightarrow> 8 word LookupEntry option" where
  \<comment> \<open>A default next-hop selection for the examples: the first entry that was not probed.\<close>
  "closestUnused l = find (\<lambda>e. \<not> alreadyUsed e) (nextHops l)"




section \<open>Facts about the ring\<close>

lemma clockwiseSteps_bound: "clockwiseSteps a x \<le> 2 ^ LENGTH('a)" for a :: "'a::len word"
proof -
  have "unat (distance a x) < 2 ^ LENGTH('a)" by (rule unsigned_less)
  then have "unat (distance a x) \<le> 2 ^ LENGTH('a)" by (rule less_imp_le)
  then show ?thesis by (simp add: clockwiseSteps_def)
qed

lemma isBetween_not_start: "isBetween k a b \<Longrightarrow> k \<noteq> a"
proof
  assume "isBetween k a b" and "k = a"
  then have "2 ^ LENGTH('a) < clockwiseSteps a b"
    by (simp add: isBetween_def clockwiseSteps_def)
  with clockwiseSteps_bound [of a b] show False by simp
qed

lemma isBetween_not_end: "isBetween k a b \<Longrightarrow> k \<noteq> b"
  by (auto simp: isBetween_def)

lemma isBetween_less:
  assumes "isBetween k a b" and "a \<noteq> b"
  shows "distance a k < distance a b"
proof -
  from assms(1) have "k \<noteq> a" by (rule isBetween_not_start)
  with assms show ?thesis
    by (simp add: isBetween_def clockwiseSteps_def word_less_nat_alt)
qed

lemma isBetween_full_turn: "k \<noteq> a \<Longrightarrow> isBetween k a a"
proof -
  assume "k \<noteq> a"
  moreover have "unat (distance a k) < 2 ^ LENGTH('a)" by (rule unsigned_less)
  ultimately show ?thesis by (simp add: isBetween_def clockwiseSteps_def)
qed

lemma predecessor_tightens:
  assumes "isBetween k a t" and "a \<noteq> t"
  shows "distance k t < distance a t"
proof -
  from assms have lt: "k - a < t - a"
    using isBetween_less [of k a t] by (simp add: distance_def)
  from assms(1) have "k \<noteq> a" by (rule isBetween_not_start)
  then have pos: "0 < unat (k - a)" by (simp add: unat_gt_0)
  from lt have "k - a \<le> t - a" by simp
  then have "unat ((t - a) - (k - a)) = unat (t - a) - unat (k - a)" by (rule unat_sub)
  moreover have "(t - a) - (k - a) = t - k" by simp
  ultimately have "unat (t - k) = unat (t - a) - unat (k - a)" by simp
  moreover from lt have "unat (k - a) < unat (t - a)" by (simp add: word_less_nat_alt)
  ultimately have "unat (t - k) < unat (t - a)" using pos by simp
  then show ?thesis by (simp add: distance_def word_less_nat_alt)
qed

lemma successor_tightens:
  "isBetween k t b \<Longrightarrow> b \<noteq> t \<Longrightarrow> distance t k < distance t b"
  using isBetween_less [of k t b] by auto

text \<open>
  The walk agrees with the usual test by comparisons of keys: \<open>k\<close> is not \<open>keyA\<close>, and
  it lies in the open interval from \<open>keyA\<close> to \<open>keyB\<close>, which wraps around the ring
  when \<open>keyA\<close> is not below \<open>keyB\<close>.
\<close>

lemma ring_walk_compare:
  fixes x y z n :: nat
  assumes "x < n" and "y < n" and "z < n" and "x \<noteq> y" and "y \<noteq> z"
  shows "(if y \<le> x then x - y else x + n - y) < (if y \<le> z then z - y else z + n - y)
     \<longleftrightarrow> (if y < z then y < x \<and> x < z else y < x \<or> x < z)"
  using assms by (simp split: if_splits) arith

lemma isBetween_compare:
  "isBetween k keyA keyB \<longleftrightarrow>
     k \<noteq> keyA \<and> (if keyA < keyB then keyA < k \<and> k < keyB else keyA < k \<or> k < keyB)"
proof (cases "k = keyA")
  case True
  then show ?thesis using isBetween_not_start [of k keyA keyB] by auto
next
  case ne: False
  show ?thesis
  proof (cases "keyA = keyB")
    case True
    with ne show ?thesis using isBetween_full_turn [of k keyA] by auto
  next
    case False
    have "isBetween k keyA keyB \<longleftrightarrow> k - keyA < keyB - keyA"
      using ne False by (simp add: isBetween_def clockwiseSteps_def distance_def word_less_nat_alt)
    also have "\<dots> \<longleftrightarrow> (if keyA < keyB then keyA < k \<and> k < keyB else keyA < k \<or> k < keyB)"
    proof -
      have b: "unat k < 2 ^ LENGTH('a)" "unat keyA < 2 ^ LENGTH('a)" "unat keyB < 2 ^ LENGTH('a)"
        by (rule unsigned_less)+
      from ne False have d: "unat k \<noteq> unat keyA" "unat keyA \<noteq> unat keyB"
        by (simp_all add: word_unat_eq_iff)
      have "unat (k - keyA) < unat (keyB - keyA) \<longleftrightarrow>
          (if unat keyA < unat keyB then unat keyA < unat k \<and> unat k < unat keyB
           else unat keyA < unat k \<or> unat k < unat keyB)"
        unfolding unat_sub_if' by (rule ring_walk_compare [OF b d])
      then show ?thesis by (simp add: word_less_nat_alt)
    qed
    finally show ?thesis using ne by simp
  qed
qed

section \<open>Facts about the scans\<close>

lemma preceedingLoop_keep:
  "\<forall>x\<in>set xs. eligible incDead incUsed l x \<longrightarrow> entryDistance l x \<le> m \<Longrightarrow>
   preceedingLoop incDead incUsed l xs entry m = entry"
  by (induction xs arbitrary: entry m) (auto simp: eligible_def entryDistance_def)

lemma preceedingLoop_pick:
  "\<exists>x\<in>set xs. eligible incDead incUsed l x \<and> m < entryDistance l x \<Longrightarrow>
   \<exists>e. preceedingLoop incDead incUsed l xs entry m = Some e \<and> e \<in> set xs
      \<and> eligible incDead incUsed l e \<and> m < entryDistance l e
      \<and> (\<forall>x\<in>set xs. eligible incDead incUsed l x \<longrightarrow> entryDistance l x \<le> entryDistance l e)"
proof (induction xs arbitrary: entry m)
  case Nil
  then show ?case by simp
next
  case (Cons it rest)
  let ?d = "entryDistance l it"
  show ?case
  proof (cases "eligible incDead incUsed l it \<and> m < ?d")
    case False
    then have step: "preceedingLoop incDead incUsed l (it # rest) entry m
        = preceedingLoop incDead incUsed l rest entry m"
      by (auto simp: eligible_def entryDistance_def)
    from False Cons.prems
    have "\<exists>x\<in>set rest. eligible incDead incUsed l x \<and> m < entryDistance l x"
      by auto
    from Cons.IH [OF this, of entry] obtain e where e:
      "preceedingLoop incDead incUsed l rest entry m = Some e" "e \<in> set rest"
      "eligible incDead incUsed l e" "m < entryDistance l e"
      "\<forall>x\<in>set rest. eligible incDead incUsed l x \<longrightarrow> entryDistance l x \<le> entryDistance l e"
      by blast
    from False e(4) have "eligible incDead incUsed l it \<longrightarrow> ?d \<le> entryDistance l e"
      by auto
    with e step show ?thesis by auto
  next
    case True
    then have step: "preceedingLoop incDead incUsed l (it # rest) entry m
        = preceedingLoop incDead incUsed l rest (Some it) ?d"
      by (auto simp: eligible_def entryDistance_def)
    show ?thesis
    proof (cases "\<exists>x\<in>set rest. eligible incDead incUsed l x \<and> ?d < entryDistance l x")
      case better: True
      from Cons.IH [OF this, of "Some it"] obtain e where e:
        "preceedingLoop incDead incUsed l rest (Some it) ?d = Some e" "e \<in> set rest"
        "eligible incDead incUsed l e" "?d < entryDistance l e"
        "\<forall>x\<in>set rest. eligible incDead incUsed l x \<longrightarrow> entryDistance l x \<le> entryDistance l e"
        by blast
      from True e(4) have "m < entryDistance l e" by auto
      with e step show ?thesis by auto
    next
      case none: False
      then have "\<forall>x\<in>set rest. eligible incDead incUsed l x \<longrightarrow> entryDistance l x \<le> ?d"
        by auto
      from preceedingLoop_keep [OF this] step True this show ?thesis by auto
    qed
  qed
qed

lemma succeedingLoop_keep:
  "\<forall>x\<in>set xs. eligible incDead incUsed l x \<longrightarrow> m \<le> entryDistance l x \<Longrightarrow>
   succeedingLoop incDead incUsed l xs entry m = entry"
  by (induction xs arbitrary: entry m) (auto simp: eligible_def entryDistance_def)

lemma succeedingLoop_pick:
  "\<exists>x\<in>set xs. eligible incDead incUsed l x \<and> entryDistance l x < m \<Longrightarrow>
   \<exists>e. succeedingLoop incDead incUsed l xs entry m = Some e \<and> e \<in> set xs
      \<and> eligible incDead incUsed l e \<and> entryDistance l e < m
      \<and> (\<forall>x\<in>set xs. eligible incDead incUsed l x \<longrightarrow> entryDistance l e \<le> entryDistance l x)"
proof (induction xs arbitrary: entry m)
  case Nil
  then show ?case by simp
next
  case (Cons it rest)
  let ?d = "entryDistance l it"
  show ?case
  proof (cases "eligible incDead incUsed l it \<and> ?d < m")
    case False
    then have step: "succeedingLoop incDead incUsed l (it # rest) entry m
        = succeedingLoop incDead incUsed l rest entry m"
      by (auto simp: eligible_def entryDistance_def)
    from False Cons.prems
    have "\<exists>x\<in>set rest. eligible incDead incUsed l x \<and> entryDistance l x < m"
      by auto
    from Cons.IH [OF this, of entry] obtain e where e:
      "succeedingLoop incDead incUsed l rest entry m = Some e" "e \<in> set rest"
      "eligible incDead incUsed l e" "entryDistance l e < m"
      "\<forall>x\<in>set rest. eligible incDead incUsed l x \<longrightarrow> entryDistance l e \<le> entryDistance l x"
      by blast
    from False e(4) have "eligible incDead incUsed l it \<longrightarrow> entryDistance l e \<le> ?d"
      by auto
    with e step show ?thesis by auto
  next
    case True
    then have step: "succeedingLoop incDead incUsed l (it # rest) entry m
        = succeedingLoop incDead incUsed l rest (Some it) ?d"
      by (auto simp: eligible_def entryDistance_def)
    show ?thesis
    proof (cases "\<exists>x\<in>set rest. eligible incDead incUsed l x \<and> entryDistance l x < ?d")
      case better: True
      from Cons.IH [OF this, of "Some it"] obtain e where e:
        "succeedingLoop incDead incUsed l rest (Some it) ?d = Some e" "e \<in> set rest"
        "eligible incDead incUsed l e" "entryDistance l e < ?d"
        "\<forall>x\<in>set rest. eligible incDead incUsed l x \<longrightarrow> entryDistance l e \<le> entryDistance l x"
        by blast
      from True e(4) have "entryDistance l e < m" by auto
      with e step show ?thesis by auto
    next
      case none: False
      then have "\<forall>x\<in>set rest. eligible incDead incUsed l x \<longrightarrow> ?d \<le> entryDistance l x"
        by auto
      from succeedingLoop_keep [OF this] step True this show ?thesis by auto
    qed
  qed
qed

lemma getPreceedingEntry_None:
  "getPreceedingEntry incDead incUsed s = None \<longleftrightarrow>
     (\<forall>x\<in>set (nextHops (base s)).
        eligible incDead incUsed (base s) x \<longrightarrow> entryDistance (base s) x = 0)"
proof
  assume none: "getPreceedingEntry incDead incUsed s = None"
  show "\<forall>x\<in>set (nextHops (base s)).
      eligible incDead incUsed (base s) x \<longrightarrow> entryDistance (base s) x = 0"
  proof (rule ccontr)
    assume "\<not> ?thesis"
    then have "\<exists>x\<in>set (nextHops (base s)).
        eligible incDead incUsed (base s) x \<and> 0 < entryDistance (base s) x"
      by (auto simp: word_greater_zero_iff)
    from preceedingLoop_pick [OF this, of None] none show False
      by (auto simp: getPreceedingEntry_def)
  qed
next
  assume "\<forall>x\<in>set (nextHops (base s)).
      eligible incDead incUsed (base s) x \<longrightarrow> entryDistance (base s) x = 0"
  then have "\<forall>x\<in>set (nextHops (base s)).
      eligible incDead incUsed (base s) x \<longrightarrow> entryDistance (base s) x \<le> 0"
    by auto
  from preceedingLoop_keep [OF this] show "getPreceedingEntry incDead incUsed s = None"
    by (simp add: getPreceedingEntry_def)
qed

lemma getPreceedingEntry_Some:
  assumes "getPreceedingEntry incDead incUsed s = Some p"
  shows "p \<in> set (nextHops (base s)) \<and> eligible incDead incUsed (base s) p
     \<and> 0 < entryDistance (base s) p
     \<and> (\<forall>x\<in>set (nextHops (base s)).
          eligible incDead incUsed (base s) x \<longrightarrow> entryDistance (base s) x \<le> entryDistance (base s) p)"
proof -
  from assms have "getPreceedingEntry incDead incUsed s \<noteq> None" by simp
  then have "\<exists>x\<in>set (nextHops (base s)).
      eligible incDead incUsed (base s) x \<and> 0 < entryDistance (base s) x"
    by (auto simp: getPreceedingEntry_None word_greater_zero_iff)
  from preceedingLoop_pick [OF this, of None] assms show ?thesis
    by (auto simp: getPreceedingEntry_def)
qed

lemma getSucceedingEntry_None:
  "getSucceedingEntry incDead incUsed s = None \<longleftrightarrow>
     (\<forall>x\<in>set (nextHops (base s)).
        eligible incDead incUsed (base s) x \<longrightarrow> entryDistance (base s) x = getMax)"
proof
  assume none: "getSucceedingEntry incDead incUsed s = None"
  show "\<forall>x\<in>set (nextHops (base s)).
      eligible incDead incUsed (base s) x \<longrightarrow> entryDistance (base s) x = getMax"
  proof (rule ccontr)
    assume "\<not> ?thesis"
    then have "\<exists>x\<in>set (nextHops (base s)).
        eligible incDead incUsed (base s) x \<and> entryDistance (base s) x < getMax"
      by (auto simp: getMax_def word_order.not_eq_extremum)
    from succeedingLoop_pick [OF this, of None] none show False
      by (auto simp: getSucceedingEntry_def)
  qed
next
  assume "\<forall>x\<in>set (nextHops (base s)).
      eligible incDead incUsed (base s) x \<longrightarrow> entryDistance (base s) x = getMax"
  then have "\<forall>x\<in>set (nextHops (base s)).
      eligible incDead incUsed (base s) x \<longrightarrow> getMax \<le> entryDistance (base s) x"
    by auto
  from succeedingLoop_keep [OF this] show "getSucceedingEntry incDead incUsed s = None"
    by (simp add: getSucceedingEntry_def)
qed

lemma getSucceedingEntry_Some:
  assumes "getSucceedingEntry incDead incUsed s = Some q"
  shows "q \<in> set (nextHops (base s)) \<and> eligible incDead incUsed (base s) q
     \<and> entryDistance (base s) q < getMax
     \<and> (\<forall>x\<in>set (nextHops (base s)).
          eligible incDead incUsed (base s) x \<longrightarrow> entryDistance (base s) q \<le> entryDistance (base s) x)"
proof -
  from assms have "getSucceedingEntry incDead incUsed s \<noteq> None" by simp
  then have "\<exists>x\<in>set (nextHops (base s)).
      eligible incDead incUsed (base s) x \<and> entryDistance (base s) x < getMax"
    by (auto simp: getSucceedingEntry_None getMax_def word_order.not_eq_extremum)
  from succeedingLoop_pick [OF this, of None] assms show ?thesis
    by (auto simp: getSucceedingEntry_def)
qed

section \<open>Facts about the resolver\<close>

lemma checkFalseNegative_cases:
  "checkFalseNegative s = (if concludes s then concludeLookup s else s)"
proof (cases "getPreceedingEntry defaultIncDead defaultIncUsed s")
  case None
  then show ?thesis
    by (simp add: checkFalseNegative_def concludes_def surroundingVisited_def)
next
  case p: (Some p)
  show ?thesis
  proof (cases "getSucceedingEntry defaultIncDead defaultIncUsed s")
    case None
    with p show ?thesis
      by (simp add: checkFalseNegative_def concludes_def surroundingVisited_def)
  next
    case (Some q)
    with p show ?thesis
      unfolding checkFalseNegative_def concludes_def surroundingVisited_def
        bracketsCorroborate_def deadBlockers_def Let_def
      by (cases "success (base s)"; cases "finished (base s)") auto
  qed
qed

lemma concludeLookup_base:
  "base (concludeLookup s) =
     (base s)\<lparr>siblings := siblings (base s) @ [bestSuccessor s],
              finished := True, success := True\<rparr>"
  by (simp add: concludeLookup_def Let_def sendFalseNegWarning_def addSibling_def)

lemma concludeLookup_brackets:
  "bestPredecessor (concludeLookup s) = bestPredecessor s"
  "bestPredecessorsSuccessor (concludeLookup s) = bestPredecessorsSuccessor s"
  "bestSuccessor (concludeLookup s) = bestSuccessor s"
  "bestSuccessorsPredecessor (concludeLookup s) = bestSuccessorsPredecessor s"
  by (simp_all add: concludeLookup_def Let_def sendFalseNegWarning_def addSibling_def)

lemma concludeLookup_warnings:
  "falseNegWarnings (concludeLookup s) =
     (if findDeadNodes (base s) = [] then falseNegWarnings s
      else falseNegWarnings s
        @ [(bestPredecessor s, bestSuccessor s, findDeadNodes (base s))])"
  by (simp add: concludeLookup_def Let_def sendFalseNegWarning_def addSibling_def)

lemma findDeadNodes_empty:
  "findDeadNodes l = [] \<longleftrightarrow> \<not> (\<exists>e\<in>set (nextHops l). getDead l (handle e))"
  by (auto simp: findDeadNodes_def filter_empty_conv)

lemma checkFalseNegative_brackets:
  "bestPredecessor (checkFalseNegative s) = bestPredecessor s"
  "bestPredecessorsSuccessor (checkFalseNegative s) = bestPredecessorsSuccessor s"
  "bestSuccessor (checkFalseNegative s) = bestSuccessor s"
  "bestSuccessorsPredecessor (checkFalseNegative s) = bestSuccessorsPredecessor s"
  by (simp_all add: checkFalseNegative_cases concludeLookup_brackets)

lemma checkFalseNegative_lookupKey:
  "lookupKey (base (checkFalseNegative s)) = lookupKey (base s)"
  by (simp add: checkFalseNegative_cases concludeLookup_base)

lemma checkFalseNegative_pool:
  "nextHops (base (checkFalseNegative s)) = nextHops (base s)"
  "visitedNodes (base (checkFalseNegative s)) = visitedNodes (base s)"
  "deadNodes (base (checkFalseNegative s)) = deadNodes (base s)"
  by (simp_all add: checkFalseNegative_cases concludeLookup_base)

lemma checkFalseNegative_success: "success (base s) \<Longrightarrow> checkFalseNegative s = s"
  by (simp add: checkFalseNegative_def)

section \<open>Evaluation on the 8-bit ring\<close>

lemma uint_minus_one_word8: "uint (- 1 :: 8 word) = 255"
  by code_simp

lemmas ring_eval =
  getPreceedingEntry_def getSucceedingEntry_def defaultIncDead_def defaultIncUsed_def
  ringState_def ringLookup_def candidate_def node_def getDead_def getVisited_def
  distance_def getMax_def word_le_def word_less_def uint_minus_one_word8

lemma ringState_surrounding:
  "getPreceedingEntry defaultIncDead defaultIncUsed ringState = Some (candidate 20 True)"
  "getSucceedingEntry defaultIncDead defaultIncUsed ringState = Some (candidate 40 True)"
  by (simp_all add: ring_eval)

lemma corroboratedState_surrounding:
  "getPreceedingEntry defaultIncDead defaultIncUsed corroboratedState = Some (candidate 20 True)"
  "getSucceedingEntry defaultIncDead defaultIncUsed corroboratedState = Some (candidate 40 True)"
  by (simp_all add: corroboratedState_def ring_eval)

lemma finishedState_surrounding:
  "getPreceedingEntry defaultIncDead defaultIncUsed finishedState = Some (candidate 20 True)"
  "getSucceedingEntry defaultIncDead defaultIncUsed finishedState = Some (candidate 40 True)"
  by (simp_all add: finishedState_def ring_eval)

lemma aliveState_surrounding:
  "getPreceedingEntry defaultIncDead defaultIncUsed aliveState = Some (candidate 20 True)"
  "getSucceedingEntry defaultIncDead defaultIncUsed aliveState = Some (candidate 40 True)"
  by (simp_all add: aliveState_def corroboratedState_def ring_eval)

lemma unvisitedState_surrounding:
  "getPreceedingEntry defaultIncDead defaultIncUsed unvisitedState = Some (candidate 20 True)"
  "getSucceedingEntry defaultIncDead defaultIncUsed unvisitedState = Some (candidate 40 True)"
  by (simp_all add: unvisitedState_def ring_eval)

lemma candidate_visited:
  "getVisited (base ringState) (handle (candidate 20 True))"
  "getVisited (base ringState) (handle (candidate 40 True))"
  "getVisited (base corroboratedState) (handle (candidate 20 True))"
  "getVisited (base corroboratedState) (handle (candidate 40 True))"
  "getVisited (base finishedState) (handle (candidate 20 True))"
  "getVisited (base finishedState) (handle (candidate 40 True))"
  "getVisited (base aliveState) (handle (candidate 20 True))"
  "getVisited (base aliveState) (handle (candidate 40 True))"
  by (simp_all add: aliveState_def finishedState_def corroboratedState_def ring_eval)

lemma surroundingVisited_examples:
  "surroundingVisited ringState"
  "surroundingVisited corroboratedState"
  "surroundingVisited finishedState"
  "surroundingVisited aliveState"
  "\<not> surroundingVisited unvisitedState"
  by (simp_all add: surroundingVisited_def ringState_surrounding corroboratedState_surrounding
      finishedState_surrounding aliveState_surrounding unvisitedState_surrounding
      candidate_visited)
    (simp add: unvisitedState_def getVisited_def candidate_def node_def)

section \<open>Corroborating brackets\<close>

text \<open>
  Claim C1. When the lookup is not yet successful, the resolver finds a preceding and a
  succeeding entry, both are visited, and \<open>bestSuccessor\<close> is the successor that
  \<open>bestPredecessor\<close> claims or \<open>bestPredecessor\<close> the predecessor that \<open>bestSuccessor\<close>
  claims, then the resolver sets \<open>success\<close> and \<open>finished\<close> and registers
  \<open>bestSuccessor\<close> as a sibling. No answer of a peer that holds itself responsible is
  among the conditions.
\<close>

theorem corroboration_concludes:
  assumes "\<not> success (base s)"
    and "getPreceedingEntry defaultIncDead defaultIncUsed s = Some preceedingEntry"
    and "getSucceedingEntry defaultIncDead defaultIncUsed s = Some succeedingEntry"
    and "getVisited (base s) (handle preceedingEntry)"
    and "getVisited (base s) (handle succeedingEntry)"
    and "bestSuccessor s = bestPredecessorsSuccessor s
         \<or> bestPredecessor s = bestSuccessorsPredecessor s"
  shows "success (base (checkFalseNegative s))
     \<and> finished (base (checkFalseNegative s))
     \<and> siblings (base (checkFalseNegative s)) = siblings (base s) @ [bestSuccessor s]"
proof -
  from assms have "concludes s"
    by (simp add: concludes_def surroundingVisited_def bracketsCorroborate_def)
  then show ?thesis
    by (simp add: checkFalseNegative_cases concludeLookup_base)
qed

theorem corroboration_concludes_witness:
  "\<not> success (base corroboratedState)
   \<and> getPreceedingEntry defaultIncDead defaultIncUsed corroboratedState = Some (candidate 20 True)
   \<and> getSucceedingEntry defaultIncDead defaultIncUsed corroboratedState = Some (candidate 40 True)
   \<and> getVisited (base corroboratedState) (handle (candidate 20 True))
   \<and> getVisited (base corroboratedState) (handle (candidate 40 True))
   \<and> bestSuccessor corroboratedState = bestPredecessorsSuccessor corroboratedState
   \<and> success (base (checkFalseNegative corroboratedState))
   \<and> finished (base (checkFalseNegative corroboratedState))
   \<and> siblings (base (checkFalseNegative corroboratedState)) = [node 40]"
proof -
  have a: "\<not> success (base corroboratedState)"
    by (simp add: corroboratedState_def ringState_def ringLookup_def)
  have c: "bestSuccessor corroboratedState = bestPredecessorsSuccessor corroboratedState"
    by (simp add: corroboratedState_def ringState_def)
  have sib: "siblings (base corroboratedState) = []"
    by (simp add: corroboratedState_def ringState_def ringLookup_def)
  have bs: "bestSuccessor corroboratedState = node 40"
    by (simp add: corroboratedState_def ringState_def)
  from corroboration_concludes [OF a corroboratedState_surrounding
      candidate_visited(3) candidate_visited(4) disjI1 [OF c]]
  have "success (base (checkFalseNegative corroboratedState))
     \<and> finished (base (checkFalseNegative corroboratedState))
     \<and> siblings (base (checkFalseNegative corroboratedState)) = [node 40]"
    by (simp only: sib bs append_Nil)
  with a corroboratedState_surrounding candidate_visited(3) candidate_visited(4) c
  show ?thesis by blast
qed

section \<open>Dead blockers\<close>

text \<open>
  Claim C2. When the brackets do not corroborate, both claimed neighbours
  (\<open>bestPredecessorsSuccessor\<close> and \<open>bestSuccessorsPredecessor\<close>) are dead and the
  lookup is not finished, the resolver returns the state as it was: \<open>finished\<close> stays
  false, nothing is sent, no sibling is registered, no flag changes. The same brackets
  conclude the lookup once \<open>finished\<close> has been set by other means.
\<close>

theorem dead_blockers_wait:
  assumes "bestSuccessor s \<noteq> bestPredecessorsSuccessor s"
    and "bestPredecessor s \<noteq> bestSuccessorsPredecessor s"
    and "getDead (base s) (bestPredecessorsSuccessor s)"
    and "getDead (base s) (bestSuccessorsPredecessor s)"
  shows "(\<not> finished (base s) \<longrightarrow> checkFalseNegative s = s)
     \<and> (finished (base s) \<and> \<not> success (base s) \<and> surroundingVisited s
          \<longrightarrow> checkFalseNegative s = concludeLookup s)"
  using assms
  by (simp add: checkFalseNegative_cases concludes_def bracketsCorroborate_def deadBlockers_def)

theorem dead_blockers_wait_witness:
  "bestSuccessor ringState \<noteq> bestPredecessorsSuccessor ringState
   \<and> bestPredecessor ringState \<noteq> bestSuccessorsPredecessor ringState
   \<and> getDead (base ringState) (bestPredecessorsSuccessor ringState)
   \<and> getDead (base ringState) (bestSuccessorsPredecessor ringState)
   \<and> \<not> finished (base ringState) \<and> \<not> success (base ringState)
   \<and> surroundingVisited ringState
   \<and> checkFalseNegative ringState = ringState
   \<and> finished (base finishedState) \<and> \<not> success (base finishedState)
   \<and> surroundingVisited finishedState
   \<and> checkFalseNegative finishedState = concludeLookup finishedState
   \<and> siblings (base (concludeLookup finishedState)) = [node 40]
   \<and> falseNegWarnings (concludeLookup finishedState) = [(node 20, node 40, [node 30])]"
proof -
  have r: "bestSuccessor ringState \<noteq> bestPredecessorsSuccessor ringState"
    "bestPredecessor ringState \<noteq> bestSuccessorsPredecessor ringState"
    "getDead (base ringState) (bestPredecessorsSuccessor ringState)"
    "getDead (base ringState) (bestSuccessorsPredecessor ringState)"
    "\<not> finished (base ringState)" "\<not> success (base ringState)"
    by (simp_all add: ringState_def ringLookup_def node_def getDead_def)
  have f: "bestSuccessor finishedState \<noteq> bestPredecessorsSuccessor finishedState"
    "bestPredecessor finishedState \<noteq> bestSuccessorsPredecessor finishedState"
    "getDead (base finishedState) (bestPredecessorsSuccessor finishedState)"
    "getDead (base finishedState) (bestSuccessorsPredecessor finishedState)"
    "finished (base finishedState)" "\<not> success (base finishedState)"
    by (simp_all add: finishedState_def ringState_def ringLookup_def node_def getDead_def)
  have e: "siblings (base (concludeLookup finishedState)) = [node 40]"
    "falseNegWarnings (concludeLookup finishedState) = [(node 20, node 40, [node 30])]"
    by (simp_all add: concludeLookup_base concludeLookup_warnings findDeadNodes_def
        finishedState_def ringState_def ringLookup_def candidate_def node_def getDead_def)
  from dead_blockers_wait [OF r(1-4)] r(5)
  have 1: "checkFalseNegative ringState = ringState" by blast
  from dead_blockers_wait [OF f(1-4)] f(5,6) surroundingVisited_examples(3)
  have 2: "checkFalseNegative finishedState = concludeLookup finishedState" by blast
  from r f(5,6) surroundingVisited_examples(1,3) 1 2 e show ?thesis by blast
qed

section \<open>Conclusion of the lookup\<close>

text \<open>
  Claim C6. Whenever the resolver concludes the lookup (it passes every guard), it
  sends a stale-link warning that names \<open>bestPredecessor\<close>, \<open>bestSuccessor\<close> and all
  the dead candidates of the pool, in pool order, if and only if the pool has a dead
  candidate; warning or not, it registers \<open>bestSuccessor\<close> as a sibling and sets
  \<open>success\<close> and \<open>finished\<close>. An invocation that does not conclude changes nothing.
\<close>

theorem conclusion_effects:
  "(concludes s \<longrightarrow>
      falseNegWarnings (checkFalseNegative s) =
        (if \<exists>e\<in>set (nextHops (base s)). getDead (base s) (handle e)
         then falseNegWarnings s
           @ [(bestPredecessor s, bestSuccessor s,
               filter (getDead (base s)) (map handle (nextHops (base s))))]
         else falseNegWarnings s)
      \<and> siblings (base (checkFalseNegative s)) = siblings (base s) @ [bestSuccessor s]
      \<and> success (base (checkFalseNegative s))
      \<and> finished (base (checkFalseNegative s)))
   \<and> (\<not> concludes s \<longrightarrow> checkFalseNegative s = s)"
proof -
  have "findDeadNodes (base s) = filter (getDead (base s)) (map handle (nextHops (base s)))"
    by (simp add: findDeadNodes_def)
  then show ?thesis
    using findDeadNodes_empty [of "base s"]
    by (simp add: checkFalseNegative_cases concludeLookup_base concludeLookup_warnings)
qed

theorem conclusion_effects_witness:
  "concludes corroboratedState
   \<and> falseNegWarnings (checkFalseNegative corroboratedState) = [(node 20, node 40, [node 30])]
   \<and> siblings (base (checkFalseNegative corroboratedState)) = [node 40]
   \<and> success (base (checkFalseNegative corroboratedState))
   \<and> finished (base (checkFalseNegative corroboratedState))
   \<and> concludes aliveState
   \<and> falseNegWarnings (checkFalseNegative aliveState) = []
   \<and> siblings (base (checkFalseNegative aliveState)) = [node 40]
   \<and> success (base (checkFalseNegative aliveState))
   \<and> finished (base (checkFalseNegative aliveState))"
proof -
  have c: "concludes corroboratedState"
    by (simp add: concludes_def surroundingVisited_examples bracketsCorroborate_def)
      (simp add: corroboratedState_def ringState_def ringLookup_def)
  have a: "concludes aliveState"
    by (simp add: concludes_def surroundingVisited_examples bracketsCorroborate_def)
      (simp add: aliveState_def corroboratedState_def ringState_def ringLookup_def)
  have cv: "(\<exists>e\<in>set (nextHops (base corroboratedState)).
        getDead (base corroboratedState) (handle e))"
    "filter (getDead (base corroboratedState)) (map handle (nextHops (base corroboratedState)))
       = [node 30]"
    "falseNegWarnings corroboratedState = []" "siblings (base corroboratedState) = []"
    "bestPredecessor corroboratedState = node 20" "bestSuccessor corroboratedState = node 40"
    by (simp_all add: corroboratedState_def ringState_def ringLookup_def candidate_def
        node_def getDead_def)
  have av: "\<not> (\<exists>e\<in>set (nextHops (base aliveState)). getDead (base aliveState) (handle e))"
    "falseNegWarnings aliveState = []" "siblings (base aliveState) = []"
    "bestSuccessor aliveState = node 40"
    by (simp_all add: aliveState_def corroboratedState_def ringState_def ringLookup_def
        candidate_def node_def getDead_def)
  from conclusion_effects [of corroboratedState] c cv
  have 1: "falseNegWarnings (checkFalseNegative corroboratedState)
        = [(node 20, node 40, [node 30])]
     \<and> siblings (base (checkFalseNegative corroboratedState)) = [node 40]
     \<and> success (base (checkFalseNegative corroboratedState))
     \<and> finished (base (checkFalseNegative corroboratedState))"
    by simp
  from conclusion_effects [of aliveState] a av
  have 2: "falseNegWarnings (checkFalseNegative aliveState) = []
     \<and> siblings (base (checkFalseNegative aliveState)) = [node 40]
     \<and> success (base (checkFalseNegative aliveState))
     \<and> finished (base (checkFalseNegative aliveState))"
    by simp
  from c a 1 2 show ?thesis by blast
qed

section \<open>The surrounding entries of the resolver\<close>

text \<open>
  Claim C4, as the code has it. The preceding entry of the resolver is a candidate
  that is alive, visited or not, whose clockwise distance from the target to its key is
  positive and the largest among the alive candidates (the closest one before the
  target); there is none exactly when every alive candidate sits on the target. The
  succeeding entry is an alive candidate, visited or not, whose distance is below the
  maximum key and the smallest among the alive candidates; there is none exactly when
  every alive candidate is at the maximal distance. When one of the two is absent or
  has not been visited, the resolver returns the state as it was.
\<close>

theorem resolver_surrounding_entries:
  "(\<forall>p. getPreceedingEntry defaultIncDead defaultIncUsed s = Some p \<longrightarrow>
        p \<in> set (nextHops (base s)) \<and> \<not> getDead (base s) (handle p)
        \<and> 0 < entryDistance (base s) p
        \<and> (\<forall>x\<in>set (nextHops (base s)). \<not> getDead (base s) (handle x) \<longrightarrow>
              entryDistance (base s) x \<le> entryDistance (base s) p))
   \<and> (getPreceedingEntry defaultIncDead defaultIncUsed s = None \<longleftrightarrow>
        (\<forall>x\<in>set (nextHops (base s)). \<not> getDead (base s) (handle x) \<longrightarrow>
              entryDistance (base s) x = 0))
   \<and> (\<forall>q. getSucceedingEntry defaultIncDead defaultIncUsed s = Some q \<longrightarrow>
        q \<in> set (nextHops (base s)) \<and> \<not> getDead (base s) (handle q)
        \<and> entryDistance (base s) q < getMax
        \<and> (\<forall>x\<in>set (nextHops (base s)). \<not> getDead (base s) (handle x) \<longrightarrow>
              entryDistance (base s) q \<le> entryDistance (base s) x))
   \<and> (getSucceedingEntry defaultIncDead defaultIncUsed s = None \<longleftrightarrow>
        (\<forall>x\<in>set (nextHops (base s)). \<not> getDead (base s) (handle x) \<longrightarrow>
              entryDistance (base s) x = getMax))
   \<and> (\<not> surroundingVisited s \<longrightarrow> checkFalseNegative s = s)"
proof -
  have el: "\<And>x. eligible defaultIncDead defaultIncUsed (base s) x = (\<not> getDead (base s) (handle x))"
    by (simp add: eligible_def defaultIncDead_def defaultIncUsed_def)
  have 1: "\<forall>p. getPreceedingEntry defaultIncDead defaultIncUsed s = Some p \<longrightarrow>
        p \<in> set (nextHops (base s)) \<and> \<not> getDead (base s) (handle p)
        \<and> 0 < entryDistance (base s) p
        \<and> (\<forall>x\<in>set (nextHops (base s)). \<not> getDead (base s) (handle x) \<longrightarrow>
              entryDistance (base s) x \<le> entryDistance (base s) p)"
    using getPreceedingEntry_Some [of defaultIncDead defaultIncUsed s] by (simp add: el)
  have 2: "getPreceedingEntry defaultIncDead defaultIncUsed s = None \<longleftrightarrow>
        (\<forall>x\<in>set (nextHops (base s)). \<not> getDead (base s) (handle x) \<longrightarrow>
              entryDistance (base s) x = 0)"
    using getPreceedingEntry_None [of defaultIncDead defaultIncUsed s] by (simp add: el)
  have 3: "\<forall>q. getSucceedingEntry defaultIncDead defaultIncUsed s = Some q \<longrightarrow>
        q \<in> set (nextHops (base s)) \<and> \<not> getDead (base s) (handle q)
        \<and> entryDistance (base s) q < getMax
        \<and> (\<forall>x\<in>set (nextHops (base s)). \<not> getDead (base s) (handle x) \<longrightarrow>
              entryDistance (base s) q \<le> entryDistance (base s) x)"
    using getSucceedingEntry_Some [of defaultIncDead defaultIncUsed s] by (simp add: el)
  have 4: "getSucceedingEntry defaultIncDead defaultIncUsed s = None \<longleftrightarrow>
        (\<forall>x\<in>set (nextHops (base s)). \<not> getDead (base s) (handle x) \<longrightarrow>
              entryDistance (base s) x = getMax)"
    using getSucceedingEntry_None [of defaultIncDead defaultIncUsed s] by (simp add: el)
  have 5: "\<not> surroundingVisited s \<longrightarrow> checkFalseNegative s = s"
    by (simp add: checkFalseNegative_cases concludes_def)
  from 1 2 3 4 5 show ?thesis by blast
qed

theorem resolver_surrounding_entries_witness:
  "getPreceedingEntry defaultIncDead defaultIncUsed ringState = Some (candidate 20 True)
   \<and> candidate 20 True \<in> set (nextHops (base ringState))
   \<and> \<not> getDead (base ringState) (handle (candidate 20 True))
   \<and> 0 < entryDistance (base ringState) (candidate 20 True)
   \<and> entryDistance (base ringState) (candidate 40 True)
       \<le> entryDistance (base ringState) (candidate 20 True)
   \<and> getSucceedingEntry defaultIncDead defaultIncUsed ringState = Some (candidate 40 True)
   \<and> entryDistance (base ringState) (candidate 40 True) < getMax
   \<and> \<not> surroundingVisited unvisitedState
   \<and> checkFalseNegative unvisitedState = unvisitedState"
proof -
  note r = resolver_surrounding_entries [of ringState]
  from r ringState_surrounding(1)
  have p: "candidate 20 True \<in> set (nextHops (base ringState))
      \<and> \<not> getDead (base ringState) (handle (candidate 20 True))
      \<and> 0 < entryDistance (base ringState) (candidate 20 True)
      \<and> (\<forall>x\<in>set (nextHops (base ringState)). \<not> getDead (base ringState) (handle x) \<longrightarrow>
            entryDistance (base ringState) x \<le> entryDistance (base ringState) (candidate 20 True))"
    by blast
  from r ringState_surrounding(2)
  have q: "candidate 40 True \<in> set (nextHops (base ringState))
      \<and> \<not> getDead (base ringState) (handle (candidate 40 True))
      \<and> entryDistance (base ringState) (candidate 40 True) < getMax"
    by blast
  from p q have "entryDistance (base ringState) (candidate 40 True)
       \<le> entryDistance (base ringState) (candidate 20 True)"
    by blast
  moreover from resolver_surrounding_entries [of unvisitedState] surroundingVisited_examples(5)
  have "checkFalseNegative unvisitedState = unvisitedState" by blast
  ultimately show ?thesis
    using p q ringState_surrounding surroundingVisited_examples(5) by blast
qed

text \<open>
  The claim as the specification words it restricts both scans to the entries that are
  alive and already visited. In \<open>unvisitedState\<close> the alive and visited peer 15 lies
  before the target and the alive and visited peer 40 after it, and the two corroborate
  each other; the scan nevertheless returns the unvisited peer 20, which is nearer to
  the target than peer 15, and the resolver gives up.
\<close>

theorem visited_restriction_counterexample:
  "candidate 15 True \<in> set (nextHops (base unvisitedState))
   \<and> \<not> getDead (base unvisitedState) (handle (candidate 15 True))
   \<and> getVisited (base unvisitedState) (handle (candidate 15 True))
   \<and> candidate 40 True \<in> set (nextHops (base unvisitedState))
   \<and> \<not> getDead (base unvisitedState) (handle (candidate 40 True))
   \<and> getVisited (base unvisitedState) (handle (candidate 40 True))
   \<and> bracketsCorroborate unvisitedState
   \<and> getPreceedingEntry defaultIncDead defaultIncUsed unvisitedState = Some (candidate 20 True)
   \<and> \<not> getVisited (base unvisitedState) (handle (candidate 20 True))
   \<and> distance (key (handle (candidate 20 True))) (lookupKey (base unvisitedState)) = 5
   \<and> distance (key (handle (candidate 15 True))) (lookupKey (base unvisitedState)) = 10
   \<and> checkFalseNegative unvisitedState = unvisitedState"
proof -
  have "checkFalseNegative unvisitedState = unvisitedState"
    using surroundingVisited_examples(5)
    by (simp add: checkFalseNegative_cases concludes_def)
  moreover have "candidate 15 True \<in> set (nextHops (base unvisitedState))"
    "\<not> getDead (base unvisitedState) (handle (candidate 15 True))"
    "getVisited (base unvisitedState) (handle (candidate 15 True))"
    "candidate 40 True \<in> set (nextHops (base unvisitedState))"
    "\<not> getDead (base unvisitedState) (handle (candidate 40 True))"
    "getVisited (base unvisitedState) (handle (candidate 40 True))"
    "bracketsCorroborate unvisitedState"
    "\<not> getVisited (base unvisitedState) (handle (candidate 20 True))"
    "distance (key (handle (candidate 20 True))) (lookupKey (base unvisitedState)) = 5"
    "distance (key (handle (candidate 15 True))) (lookupKey (base unvisitedState)) = 10"
    by (simp_all add: unvisitedState_def bracketsCorroborate_def candidate_def node_def
        getDead_def getVisited_def distance_def)
  ultimately show ?thesis using unvisitedState_surrounding(1) by blast
qed

section \<open>Facts about the tracker update\<close>

lemma getClosestNodes_first:
  "closestNodes msg \<noteq> [] \<Longrightarrow> getClosestNodes msg 0 = Inr (closestNodes msg ! 0)"
  by (simp add: getClosestNodes_def)

lemma updateBrackets_skip:
  "isUnspecified (srcNode msg) \<or> closestNodes msg = [] \<Longrightarrow> updateBrackets msg s = Inr s"
  by (auto simp: updateBrackets_def getClosestNodesArraySize_def)

lemma updateBrackets_predecessor:
  assumes "\<not> isUnspecified (srcNode msg)" and "closestNodes msg \<noteq> []"
    and "isBetween (key (srcNode msg)) (key (bestPredecessor s)) (lookupKey (base s))"
  shows "updateBrackets msg s =
     (if closestNodes msg ! 0 = srcNode msg then
        if 2 < length (closestNodes msg)
        then Inr (s\<lparr>bestPredecessor := srcNode msg,
                     bestPredecessorsSuccessor := closestNodes msg ! 2\<rparr>)
        else Inl ArrayIndexOutOfRange
      else Inr (s\<lparr>bestPredecessor := srcNode msg,
                   bestPredecessorsSuccessor := closestNodes msg ! 0\<rparr>))"
  using assms
  by (simp add: updateBrackets_def getClosestNodesArraySize_def getClosestNodes_first Let_def)
    (simp add: getClosestNodes_def)

lemma updateBrackets_successor:
  assumes "\<not> isUnspecified (srcNode msg)" and "closestNodes msg \<noteq> []"
    and "\<not> isBetween (key (srcNode msg)) (key (bestPredecessor s)) (lookupKey (base s))"
    and "isBetween (key (srcNode msg)) (lookupKey (base s)) (key (bestSuccessor s))"
  shows "updateBrackets msg s =
     (if closestNodes msg ! 0 = srcNode msg then
        if 1 < length (closestNodes msg)
        then Inr (s\<lparr>bestSuccessor := srcNode msg,
                     bestSuccessorsPredecessor := closestNodes msg ! 1\<rparr>)
        else Inl ArrayIndexOutOfRange
      else Inr (s\<lparr>bestSuccessor := srcNode msg,
                   bestSuccessorsPredecessor := closestNodes msg ! 0\<rparr>))"
  using assms
  by (simp add: updateBrackets_def getClosestNodesArraySize_def getClosestNodes_first Let_def)
    (simp add: getClosestNodes_def)

lemma updateBrackets_neither:
  assumes "\<not> isBetween (key (srcNode msg)) (key (bestPredecessor s)) (lookupKey (base s))"
    and "\<not> isBetween (key (srcNode msg)) (lookupKey (base s)) (key (bestSuccessor s))"
  shows "updateBrackets msg s = Inr s"
  using assms by (simp add: updateBrackets_def Let_def)

lemma updateBrackets_frame:
  assumes "updateBrackets msg s = Inr s'"
  shows "base s' = base s \<and> falseNegWarnings s' = falseNegWarnings s"
proof (cases "isUnspecified (srcNode msg) \<or> closestNodes msg = []")
  case True
  from updateBrackets_skip [OF this] assms show ?thesis by simp
next
  case ok: False
  show ?thesis
  proof (cases "isBetween (key (srcNode msg)) (key (bestPredecessor s)) (lookupKey (base s))")
    case True
    with ok assms show ?thesis
      by (auto simp: updateBrackets_predecessor split: if_splits)
  next
    case np: False
    show ?thesis
    proof (cases "isBetween (key (srcNode msg)) (lookupKey (base s)) (key (bestSuccessor s))")
      case True
      with ok np assms show ?thesis
        by (auto simp: updateBrackets_successor split: if_splits)
    next
      case False
      with np assms show ?thesis by (simp add: updateBrackets_neither)
    qed
  qed
qed

lemma updateBrackets_one_side:
  assumes "updateBrackets msg s = Inr s'"
  shows "bestPredecessor s' = bestPredecessor s
       \<and> bestPredecessorsSuccessor s' = bestPredecessorsSuccessor s
     \<or> bestSuccessor s' = bestSuccessor s
       \<and> bestSuccessorsPredecessor s' = bestSuccessorsPredecessor s"
proof (cases "isUnspecified (srcNode msg) \<or> closestNodes msg = []")
  case True
  from updateBrackets_skip [OF this] assms show ?thesis by simp
next
  case ok: False
  show ?thesis
  proof (cases "isBetween (key (srcNode msg)) (key (bestPredecessor s)) (lookupKey (base s))")
    case True
    with ok assms show ?thesis
      by (auto simp: updateBrackets_predecessor split: if_splits)
  next
    case np: False
    show ?thesis
    proof (cases "isBetween (key (srcNode msg)) (lookupKey (base s)) (key (bestSuccessor s))")
      case True
      with ok np assms show ?thesis
        by (auto simp: updateBrackets_successor split: if_splits)
    next
      case False
      with np assms show ?thesis by (simp add: updateBrackets_neither)
    qed
  qed
qed

lemma handleResponse_unfinished:
  assumes "\<not> finished (base s)" and "updateBrackets msg s = Inr s1"
  shows "handleResponse bhr msg s
     = Inr (checkFalseNegative (s1\<lparr>base := bhr msg (base s)\<rparr>))"
  using assms updateBrackets_frame [OF assms(2)] by (simp add: handleResponse_def)

lemma handleResponse_error:
  "handleResponse bhr msg s = Inl e \<longleftrightarrow> \<not> finished (base s) \<and> updateBrackets msg s = Inl e"
  by (simp add: handleResponse_def split: sum.splits)

lemma handleResponse_brackets:
  assumes "\<not> finished (base s)" and "updateBrackets msg s = Inr s1"
    and "handleResponse bhr msg s = Inr s'"
  shows "bestPredecessor s' = bestPredecessor s1"
    and "bestPredecessorsSuccessor s' = bestPredecessorsSuccessor s1"
    and "bestSuccessor s' = bestSuccessor s1"
    and "bestSuccessorsPredecessor s' = bestSuccessorsPredecessor s1"
  using assms(3) handleResponse_unfinished [OF assms(1,2), of bhr]
  by (auto simp: checkFalseNegative_brackets)

lemma handleTimeout_brackets:
  "bestPredecessor (handleTimeout bht m dest rpcId s) = bestPredecessor s"
  "bestPredecessorsSuccessor (handleTimeout bht m dest rpcId s) = bestPredecessorsSuccessor s"
  "bestSuccessor (handleTimeout bht m dest rpcId s) = bestSuccessor s"
  "bestSuccessorsPredecessor (handleTimeout bht m dest rpcId s) = bestSuccessorsPredecessor s"
  by (simp_all add: handleTimeout_def checkFalseNegative_brackets)

section \<open>Entry points after success\<close>










section \<open>Reads of the closest-nodes list\<close>

text \<open>
  Claim C10. The guard of the tracker update only makes sure that the closest-nodes
  list has one entry. A response whose first entry is the responder itself makes the
  handler read position 2 on the predecessor side and position 1 on the successor
  side: the handler fails with a read out of range exactly when such a response has
  fewer than three entries on the predecessor side, or fewer than two on the successor
  side. With three entries or more every response is handled.
\<close>

theorem closest_nodes_reads:
  "(handleResponse bhr msg s = Inl ArrayIndexOutOfRange \<longleftrightarrow>
      \<not> finished (base s) \<and> \<not> isUnspecified (srcNode msg) \<and> closestNodes msg \<noteq> []
      \<and> closestNodes msg ! 0 = srcNode msg
      \<and> (if isBetween (key (srcNode msg)) (key (bestPredecessor s)) (lookupKey (base s))
          then length (closestNodes msg) < 3
          else isBetween (key (srcNode msg)) (lookupKey (base s)) (key (bestSuccessor s))
               \<and> length (closestNodes msg) < 2))
   \<and> (3 \<le> length (closestNodes msg) \<longrightarrow> (\<exists>s'. handleResponse bhr msg s = Inr s'))"
proof -
  let ?p = "isBetween (key (srcNode msg)) (key (bestPredecessor s)) (lookupKey (base s))"
  let ?q = "isBetween (key (srcNode msg)) (lookupKey (base s)) (key (bestSuccessor s))"
  have u: "updateBrackets msg s = Inl ArrayIndexOutOfRange \<longleftrightarrow>
      \<not> isUnspecified (srcNode msg) \<and> closestNodes msg \<noteq> []
      \<and> closestNodes msg ! 0 = srcNode msg
      \<and> (if ?p then length (closestNodes msg) < 3 else ?q \<and> length (closestNodes msg) < 2)"
  proof (cases "isUnspecified (srcNode msg) \<or> closestNodes msg = []")
    case True
    from updateBrackets_skip [OF this] True show ?thesis by auto
  next
    case ok: False
    show ?thesis
    proof (cases ?p)
      case True
      with ok show ?thesis by (auto simp: updateBrackets_predecessor)
    next
      case np: False
      show ?thesis
      proof (cases ?q)
        case True
        with ok np show ?thesis by (auto simp: updateBrackets_successor)
      next
        case False
        with ok np show ?thesis by (simp add: updateBrackets_neither)
      qed
    qed
  qed
  have 1: "handleResponse bhr msg s = Inl ArrayIndexOutOfRange \<longleftrightarrow>
      \<not> finished (base s) \<and> \<not> isUnspecified (srcNode msg) \<and> closestNodes msg \<noteq> []
      \<and> closestNodes msg ! 0 = srcNode msg
      \<and> (if ?p then length (closestNodes msg) < 3 else ?q \<and> length (closestNodes msg) < 2)"
    by (simp add: handleResponse_error u)
  have 2: "\<exists>s'. handleResponse bhr msg s = Inr s'" if "3 \<le> length (closestNodes msg)"
  proof (cases "handleResponse bhr msg s")
    case (Inl e)
    then have "handleResponse bhr msg s = Inl ArrayIndexOutOfRange" by (cases e) simp
    with 1 that show ?thesis by (auto split: if_splits)
  next
    case (Inr s')
    then show ?thesis by blast
  qed
  from 1 2 show ?thesis by blast
qed

theorem closest_nodes_reads_witness:
  "handleResponse markVisited \<lparr>srcNode = node 22, closestNodes = [node 22, node 20]\<rparr> ringState
     = Inl ArrayIndexOutOfRange
   \<and> handleResponse markVisited \<lparr>srcNode = node 35, closestNodes = [node 35]\<rparr> ringState
     = Inl ArrayIndexOutOfRange
   \<and> (\<exists>s'. handleResponse markVisited
               \<lparr>srcNode = node 22, closestNodes = [node 22, node 20, node 40]\<rparr> ringState
             = Inr s')"
proof -
  let ?m1 = "\<lparr>srcNode = node 22, closestNodes = [node 22, node 20]\<rparr>"
  let ?m2 = "\<lparr>srcNode = node 35, closestNodes = [node 35]\<rparr>"
  let ?m3 = "\<lparr>srcNode = node 22, closestNodes = [node 22, node 20, node 40]\<rparr>"
  have b: "isBetween (key (node 22)) (key (bestPredecessor ringState)) (lookupKey (base ringState))"
    "\<not> isBetween (key (node 35)) (key (bestPredecessor ringState)) (lookupKey (base ringState))"
    "isBetween (key (node 35)) (lookupKey (base ringState)) (key (bestSuccessor ringState))"
    "\<not> finished (base ringState)" "\<not> isUnspecified (node 22)" "\<not> isUnspecified (node 35)"
    by (simp_all add: isBetween_def clockwiseSteps_def distance_def ringState_def
        ringLookup_def node_def)
  from closest_nodes_reads [of markVisited ?m1 ringState] b
  have 1: "handleResponse markVisited ?m1 ringState = Inl ArrayIndexOutOfRange" by simp
  from closest_nodes_reads [of markVisited ?m2 ringState] b
  have 2: "handleResponse markVisited ?m2 ringState = Inl ArrayIndexOutOfRange" by simp
  from closest_nodes_reads [of markVisited ?m3 ringState]
  have 3: "\<exists>s'. handleResponse markVisited ?m3 ringState = Inr s'" by simp
  from 1 2 3 show ?thesis by blast
qed

section \<open>The tracker update\<close>

text \<open>
  Claim C5, as the code has it. Take a response with a specified source and a
  non-empty closest-nodes list, processed while the lookup is unfinished. If the
  source's key lies strictly between \<open>bestPredecessor\<close> and the target, and the list
  has three entries when its first entry is the source, then \<open>bestPredecessor\<close>
  becomes the source and \<open>bestPredecessorsSuccessor\<close> the third list entry when the
  first entry is the source, the first entry otherwise; the successor side stays.
  If the source's key does not lie there but lies strictly between the target and
  \<open>bestSuccessor\<close>, and the list has two entries when its first entry is the source,
  then \<open>bestSuccessor\<close> becomes the source and \<open>bestSuccessorsPredecessor\<close> the second
  list entry when the first entry is the source, the first entry otherwise; the
  predecessor side stays. If the source's key lies in neither interval, no bracket
  changes. Whenever the handler returns a state, the predecessor side or the successor
  side of the brackets is as it was: at most one of the two updates has occurred.
  Nothing is said here of a response that lists its source first and is shorter than
  that; its read is out of range.
\<close>

theorem tracker_update:
  assumes "\<not> finished (base s)"
    and "\<not> isUnspecified (srcNode msg)"
    and "closestNodes msg \<noteq> []"
  shows
    "(isBetween (key (srcNode msg)) (key (bestPredecessor s)) (lookupKey (base s))
        \<and> (closestNodes msg ! 0 = srcNode msg \<longrightarrow> 3 \<le> length (closestNodes msg)) \<longrightarrow>
        (\<exists>s'. handleResponse bhr msg s = Inr s'
           \<and> bestPredecessor s' = srcNode msg
           \<and> bestPredecessorsSuccessor s' =
               (if closestNodes msg ! 0 = srcNode msg then closestNodes msg ! 2
                else closestNodes msg ! 0)
           \<and> bestSuccessor s' = bestSuccessor s
           \<and> bestSuccessorsPredecessor s' = bestSuccessorsPredecessor s))
     \<and> (\<not> isBetween (key (srcNode msg)) (key (bestPredecessor s)) (lookupKey (base s))
        \<and> isBetween (key (srcNode msg)) (lookupKey (base s)) (key (bestSuccessor s))
        \<and> (closestNodes msg ! 0 = srcNode msg \<longrightarrow> 2 \<le> length (closestNodes msg)) \<longrightarrow>
        (\<exists>s'. handleResponse bhr msg s = Inr s'
           \<and> bestSuccessor s' = srcNode msg
           \<and> bestSuccessorsPredecessor s' =
               (if closestNodes msg ! 0 = srcNode msg then closestNodes msg ! 1
                else closestNodes msg ! 0)
           \<and> bestPredecessor s' = bestPredecessor s
           \<and> bestPredecessorsSuccessor s' = bestPredecessorsSuccessor s))
     \<and> (\<not> isBetween (key (srcNode msg)) (key (bestPredecessor s)) (lookupKey (base s))
        \<and> \<not> isBetween (key (srcNode msg)) (lookupKey (base s)) (key (bestSuccessor s)) \<longrightarrow>
        (\<exists>s'. handleResponse bhr msg s = Inr s'
           \<and> bestPredecessor s' = bestPredecessor s
           \<and> bestPredecessorsSuccessor s' = bestPredecessorsSuccessor s
           \<and> bestSuccessor s' = bestSuccessor s
           \<and> bestSuccessorsPredecessor s' = bestSuccessorsPredecessor s))
     \<and> (\<forall>s'. handleResponse bhr msg s = Inr s' \<longrightarrow>
          bestPredecessor s' = bestPredecessor s
          \<and> bestPredecessorsSuccessor s' = bestPredecessorsSuccessor s
          \<or> bestSuccessor s' = bestSuccessor s
          \<and> bestSuccessorsPredecessor s' = bestSuccessorsPredecessor s)"
proof -
  let ?p = "isBetween (key (srcNode msg)) (key (bestPredecessor s)) (lookupKey (base s))"
  let ?q = "isBetween (key (srcNode msg)) (lookupKey (base s)) (key (bestSuccessor s))"
  have step: "\<exists>s'. handleResponse bhr msg s = Inr s'
       \<and> bestPredecessor s' = bestPredecessor s1
       \<and> bestPredecessorsSuccessor s' = bestPredecessorsSuccessor s1
       \<and> bestSuccessor s' = bestSuccessor s1
       \<and> bestSuccessorsPredecessor s' = bestSuccessorsPredecessor s1"
    if "updateBrackets msg s = Inr s1" for s1
    using handleResponse_unfinished [OF assms(1) that, of bhr]
    by (simp add: checkFalseNegative_brackets)
  have 1: "\<exists>s'. handleResponse bhr msg s = Inr s'
           \<and> bestPredecessor s' = srcNode msg
           \<and> bestPredecessorsSuccessor s' =
               (if closestNodes msg ! 0 = srcNode msg then closestNodes msg ! 2
                else closestNodes msg ! 0)
           \<and> bestSuccessor s' = bestSuccessor s
           \<and> bestSuccessorsPredecessor s' = bestSuccessorsPredecessor s"
    if "?p" and "closestNodes msg ! 0 = srcNode msg \<longrightarrow> 3 \<le> length (closestNodes msg)"
  proof (cases "closestNodes msg ! 0 = srcNode msg")
    case True
    with that assms have "updateBrackets msg s
        = Inr (s\<lparr>bestPredecessor := srcNode msg,
                  bestPredecessorsSuccessor := closestNodes msg ! 2\<rparr>)"
      by (simp add: updateBrackets_predecessor)
    from step [OF this] True show ?thesis by auto
  next
    case False
    with that assms have "updateBrackets msg s
        = Inr (s\<lparr>bestPredecessor := srcNode msg,
                  bestPredecessorsSuccessor := closestNodes msg ! 0\<rparr>)"
      by (simp add: updateBrackets_predecessor)
    from step [OF this] False show ?thesis by auto
  qed
  have 2: "\<exists>s'. handleResponse bhr msg s = Inr s'
           \<and> bestSuccessor s' = srcNode msg
           \<and> bestSuccessorsPredecessor s' =
               (if closestNodes msg ! 0 = srcNode msg then closestNodes msg ! 1
                else closestNodes msg ! 0)
           \<and> bestPredecessor s' = bestPredecessor s
           \<and> bestPredecessorsSuccessor s' = bestPredecessorsSuccessor s"
    if "\<not> ?p" and "?q"
      and "closestNodes msg ! 0 = srcNode msg \<longrightarrow> 2 \<le> length (closestNodes msg)"
  proof (cases "closestNodes msg ! 0 = srcNode msg")
    case True
    with that assms have "updateBrackets msg s
        = Inr (s\<lparr>bestSuccessor := srcNode msg,
                  bestSuccessorsPredecessor := closestNodes msg ! 1\<rparr>)"
      by (simp add: updateBrackets_successor)
    from step [OF this] True show ?thesis by auto
  next
    case False
    with that assms have "updateBrackets msg s
        = Inr (s\<lparr>bestSuccessor := srcNode msg,
                  bestSuccessorsPredecessor := closestNodes msg ! 0\<rparr>)"
      by (simp add: updateBrackets_successor)
    from step [OF this] False show ?thesis by auto
  qed
  have 3: "\<exists>s'. handleResponse bhr msg s = Inr s'
           \<and> bestPredecessor s' = bestPredecessor s
           \<and> bestPredecessorsSuccessor s' = bestPredecessorsSuccessor s
           \<and> bestSuccessor s' = bestSuccessor s
           \<and> bestSuccessorsPredecessor s' = bestSuccessorsPredecessor s"
    if "\<not> ?p" and "\<not> ?q"
    using step [OF updateBrackets_neither [OF that]] by simp
  have 4: "bestPredecessor s' = bestPredecessor s
          \<and> bestPredecessorsSuccessor s' = bestPredecessorsSuccessor s
          \<or> bestSuccessor s' = bestSuccessor s
          \<and> bestSuccessorsPredecessor s' = bestSuccessorsPredecessor s"
    if r: "handleResponse bhr msg s = Inr s'" for s'
  proof -
    from r assms(1) obtain s1 where s1: "updateBrackets msg s = Inr s1"
      by (auto simp: handleResponse_def split: sum.splits)
    from handleResponse_brackets [OF assms(1) s1 r] updateBrackets_one_side [OF s1]
    show ?thesis by simp
  qed
  from 1 2 3 4 show ?thesis by blast
qed

theorem tracker_update_witness:
  "\<not> finished (base ringState) \<and> \<not> isUnspecified (node 22) \<and> \<not> isUnspecified (node 35)
   \<and> isBetween (key (node 22)) (key (bestPredecessor ringState)) (lookupKey (base ringState))
   \<and> (\<exists>s'. handleResponse markVisited
               \<lparr>srcNode = node 22, closestNodes = [node 22, node 20, node 40]\<rparr> ringState
             = Inr s'
          \<and> bestPredecessor s' = node 22 \<and> bestPredecessorsSuccessor s' = node 40
          \<and> bestSuccessor s' = node 40 \<and> bestSuccessorsPredecessor s' = node 30)
   \<and> \<not> isBetween (key (node 35)) (key (bestPredecessor ringState)) (lookupKey (base ringState))
   \<and> isBetween (key (node 35)) (lookupKey (base ringState)) (key (bestSuccessor ringState))
   \<and> (\<exists>s'. handleResponse markVisited
               \<lparr>srcNode = node 35, closestNodes = [node 30, node 40]\<rparr> ringState
             = Inr s'
          \<and> bestSuccessor s' = node 35 \<and> bestSuccessorsPredecessor s' = node 30
          \<and> bestPredecessor s' = node 20 \<and> bestPredecessorsSuccessor s' = node 30)"
proof -
  let ?m1 = "\<lparr>srcNode = node 22, closestNodes = [node 22, node 20, node 40]\<rparr>"
  let ?m2 = "\<lparr>srcNode = node 35, closestNodes = [node 30, node 40]\<rparr>"
  have b: "\<not> finished (base ringState)" "\<not> isUnspecified (node 22)" "\<not> isUnspecified (node 35)"
    "isBetween (key (node 22)) (key (bestPredecessor ringState)) (lookupKey (base ringState))"
    "\<not> isBetween (key (node 35)) (key (bestPredecessor ringState)) (lookupKey (base ringState))"
    "isBetween (key (node 35)) (lookupKey (base ringState)) (key (bestSuccessor ringState))"
    by (simp_all add: isBetween_def clockwiseSteps_def distance_def ringState_def
        ringLookup_def node_def)
  have v: "bestPredecessor ringState = node 20" "bestPredecessorsSuccessor ringState = node 30"
    "bestSuccessor ringState = node 40" "bestSuccessorsPredecessor ringState = node 30"
    "node 30 \<noteq> node 35"
    by (simp_all add: ringState_def node_def)
  from tracker_update [of ringState ?m1 markVisited] b
  have 1: "\<exists>s'. handleResponse markVisited ?m1 ringState = Inr s'
          \<and> bestPredecessor s' = node 22 \<and> bestPredecessorsSuccessor s' = node 40
          \<and> bestSuccessor s' = node 40 \<and> bestSuccessorsPredecessor s' = node 30"
    by (simp add: v)
  from tracker_update [of ringState ?m2 markVisited] b
  have 2: "\<exists>s'. handleResponse markVisited ?m2 ringState = Inr s'
          \<and> bestSuccessor s' = node 35 \<and> bestSuccessorsPredecessor s' = node 30
          \<and> bestPredecessor s' = node 20 \<and> bestPredecessorsSuccessor s' = node 30"
    by (simp add: v)
  from b 1 2 show ?thesis by blast
qed

text \<open>
  The claim as the specification words it has no condition on the length of the list
  and treats the two sides alike. In \<open>ringState\<close> the answer of peer 22 that lists
  itself alone passes the guard, lies between \<open>bestPredecessor\<close> 20 and the target 25,
  and has no third entry: the handler fails. In \<open>ownKeyState\<close>, where both brackets
  are the local peer 25 and the target is 25 too, the key of peer 30 passes both
  tests; the predecessor side is updated and \<open>bestSuccessor\<close> stays the local peer.
\<close>

theorem tracker_update_counterexample:
  "\<not> finished (base ringState) \<and> \<not> isUnspecified (node 22)
   \<and> isBetween (key (node 22)) (key (bestPredecessor ringState)) (lookupKey (base ringState))
   \<and> handleResponse markVisited \<lparr>srcNode = node 22, closestNodes = [node 22]\<rparr> ringState
       = Inl ArrayIndexOutOfRange
   \<and> \<not> finished (base ownKeyState) \<and> \<not> isUnspecified (node 30)
   \<and> isBetween (key (node 30)) (lookupKey (base ownKeyState)) (key (bestSuccessor ownKeyState))
   \<and> (case handleResponse markVisited \<lparr>srcNode = node 30, closestNodes = [node 35]\<rparr> ownKeyState of
         Inl e \<Rightarrow> False
       | Inr s' \<Rightarrow> bestSuccessor s' = node 25 \<and> bestPredecessor s' = node 30)
   \<and> node 25 \<noteq> node 30"
proof -
  let ?m1 = "\<lparr>srcNode = node 22, closestNodes = [node 22]\<rparr>"
  let ?m2 = "\<lparr>srcNode = node 30, closestNodes = [node 35]\<rparr>"
  have b: "\<not> finished (base ringState)" "\<not> isUnspecified (node 22)"
    "isBetween (key (node 22)) (key (bestPredecessor ringState)) (lookupKey (base ringState))"
    by (simp_all add: isBetween_def clockwiseSteps_def distance_def ringState_def
        ringLookup_def node_def)
  have o: "\<not> finished (base ownKeyState)" "\<not> isUnspecified (node 30)"
    "isBetween (key (node 30)) (lookupKey (base ownKeyState)) (key (bestSuccessor ownKeyState))"
    "node 25 \<noteq> node 30" "bestSuccessor ownKeyState = node 25"
    by (simp_all add: isBetween_def clockwiseSteps_def distance_def ownKeyState_def
        newPathLookup_def ringLookup_def node_def)
  have u1: "updateBrackets ?m1 ringState = Inl ArrayIndexOutOfRange"
    by (simp add: updateBrackets_def getClosestNodesArraySize_def getClosestNodes_def
        isBetween_def clockwiseSteps_def distance_def ringState_def ringLookup_def node_def)
  have 1: "handleResponse markVisited ?m1 ringState = Inl ArrayIndexOutOfRange"
    using b(1) u1 by (simp add: handleResponse_error)
  have u2: "updateBrackets ?m2 ownKeyState
      = Inr (ownKeyState\<lparr>bestPredecessor := node 30, bestPredecessorsSuccessor := node 35\<rparr>)"
    by (simp add: updateBrackets_def getClosestNodesArraySize_def getClosestNodes_def
        isBetween_def clockwiseSteps_def distance_def ownKeyState_def newPathLookup_def
        ringLookup_def node_def Let_def)
  have 2: "case handleResponse markVisited ?m2 ownKeyState of
         Inl e \<Rightarrow> False
       | Inr s' \<Rightarrow> bestSuccessor s' = node 25 \<and> bestPredecessor s' = node 30"
    using handleResponse_unfinished [OF o(1) u2, of markVisited] o(5)
    by (simp add: checkFalseNegative_brackets)
  from b o(1-4) 1 2 show ?thesis by blast
qed

section \<open>Monotonic tightening\<close>

lemma noWider_refl: "noWider s s"
  by (simp add: noWider_def)

lemma noWider_trans: "noWider s s1 \<Longrightarrow> noWider s1 s2 \<Longrightarrow> noWider s s2"
  by (auto simp: noWider_def)

lemma noWider_same_brackets:
  assumes "lookupKey (base s') = lookupKey (base s)"
    and "bestPredecessor s' = bestPredecessor s" and "bestSuccessor s' = bestSuccessor s"
  shows "noWider s s'"
  using assms by (simp add: noWider_def distanceBefore_def distanceAfter_def)

lemma updateBrackets_noWider:
  assumes "updateBrackets msg s = Inr s'"
  shows "noWider s s'"
proof (cases "isUnspecified (srcNode msg) \<or> closestNodes msg = []")
  case True
  from updateBrackets_skip [OF this] assms show ?thesis by (simp add: noWider_refl)
next
  case ok: False
  let ?k = "key (srcNode msg)"
  let ?t = "lookupKey (base s)"
  show ?thesis
  proof (cases "isBetween ?k (key (bestPredecessor s)) ?t")
    case True
    from ok True assms have s': "bestPredecessor s' = srcNode msg"
      "bestSuccessor s' = bestSuccessor s" "base s' = base s"
      by (auto simp: updateBrackets_predecessor split: if_splits)
    from True have "?k \<noteq> ?t" by (rule isBetween_not_end)
    moreover have "distance ?k ?t \<le> distance (key (bestPredecessor s)) ?t"
      if "key (bestPredecessor s) \<noteq> ?t"
      using predecessor_tightens [OF True that] by simp
    ultimately show ?thesis
      by (simp add: noWider_def distanceBefore_def distanceAfter_def s')
  next
    case np: False
    show ?thesis
    proof (cases "isBetween ?k ?t (key (bestSuccessor s))")
      case True
      from ok np True assms have s': "bestSuccessor s' = srcNode msg"
        "bestPredecessor s' = bestPredecessor s" "base s' = base s"
        by (auto simp: updateBrackets_successor split: if_splits)
      from True have "?k \<noteq> ?t" by (rule isBetween_not_start)
      moreover have "distance ?t ?k \<le> distance ?t (key (bestSuccessor s))"
        if "key (bestSuccessor s) \<noteq> ?t"
        using successor_tightens [OF True that] by simp
      ultimately show ?thesis
        by (simp add: noWider_def distanceBefore_def distanceAfter_def s')
    next
      case False
      with np assms show ?thesis by (simp add: updateBrackets_neither noWider_refl)
    qed
  qed
qed

lemma handleResponse_noWider:
  assumes "\<And>m l. lookupKey (bhr m l) = lookupKey l"
    and "handleResponse bhr msg s = Inr s'"
  shows "noWider s s'"
proof (cases "finished (base s)")
  case True
  with assms(2) show ?thesis by (simp add: handleResponse_def noWider_refl)
next
  case False
  with assms(2) obtain s1 where s1: "updateBrackets msg s = Inr s1"
    by (auto simp: handleResponse_def split: sum.splits)
  from updateBrackets_frame [OF s1] have b1: "base s1 = base s" by simp
  from handleResponse_unfinished [OF False s1, of bhr] assms(2)
  have s': "s' = checkFalseNegative (s1\<lparr>base := bhr msg (base s)\<rparr>)" by simp
  have "noWider s1 s'"
    by (rule noWider_same_brackets)
      (simp_all add: s' checkFalseNegative_lookupKey checkFalseNegative_brackets assms(1) b1)
  with updateBrackets_noWider [OF s1] show ?thesis by (rule noWider_trans)
qed

lemma handleTimeout_noWider:
  assumes "\<And>m d r l. lookupKey (bht m d r l) = lookupKey l"
  shows "noWider s (handleTimeout bht m dest rpcId s)"
  by (rule noWider_same_brackets)
    (simp_all add: handleTimeout_brackets,
      simp add: handleTimeout_def checkFalseNegative_lookupKey assms)

lemma deliverAll_noWider:
  assumes "\<And>m l. lookupKey (bhr m l) = lookupKey l"
    and "\<And>m d r l. lookupKey (bht m d r l) = lookupKey l"
  shows "deliverAll bhr bht evs s = Inr s' \<Longrightarrow> noWider s s'"
proof (induction evs arbitrary: s)
  case Nil
  then show ?case by (simp add: noWider_refl)
next
  case (Cons ev evs)
  from Cons.prems obtain s1 where s1: "deliver bhr bht ev s = Inr s1"
    and rest: "deliverAll bhr bht evs s1 = Inr s'"
    by (auto split: sum.splits)
  have "noWider s s1"
  proof (cases ev)
    case (Response msg)
    with s1 show ?thesis using handleResponse_noWider [OF assms(1)] by simp
  next
    case (Timeout m dest rpcId)
    with s1 show ?thesis using handleTimeout_noWider [OF assms(2)] by auto
  qed
  with Cons.IH [OF rest] show ?case by (rule noWider_trans [rotated])
qed

text \<open>
  Claim C7, as the code has it. Along every sequence of responses and timeouts that
  one path lookup processes, with an engine that keeps the target key, the distance
  from \<open>bestPredecessor\<close> forward to the target does not grow, provided the key of
  \<open>bestPredecessor\<close> was not the target at the start; and the distance from the
  target forward to \<open>bestSuccessor\<close> does not grow, provided the key of
  \<open>bestSuccessor\<close> was not the target at the start. A bracket that is off the target
  stays off it, so the statement holds again from every later state.
\<close>

theorem monotonic_tightening:
  assumes "\<And>m l. lookupKey (bhr m l) = lookupKey l"
    and "\<And>m d r l. lookupKey (bht m d r l) = lookupKey l"
    and "deliverAll bhr bht evs s = Inr s'"
  shows "(key (bestPredecessor s) \<noteq> lookupKey (base s) \<longrightarrow>
            distanceBefore s' \<le> distanceBefore s
            \<and> key (bestPredecessor s') \<noteq> lookupKey (base s'))
       \<and> (key (bestSuccessor s) \<noteq> lookupKey (base s) \<longrightarrow>
            distanceAfter s' \<le> distanceAfter s
            \<and> key (bestSuccessor s') \<noteq> lookupKey (base s'))"
  using deliverAll_noWider [of bhr bht evs s s', OF assms] by (auto simp: noWider_def)

lemma ringState_answer_22:
  "handleResponse markVisited \<lparr>srcNode = node 22, closestNodes = [node 30]\<rparr> ringState
     = Inr (ringState\<lparr>bestPredecessor := node 22, bestPredecessorsSuccessor := node 30,
             base := markVisited \<lparr>srcNode = node 22, closestNodes = [node 30]\<rparr> ringLookup\<rparr>)"
proof -
  let ?msg = "\<lparr>srcNode = node 22, closestNodes = [node 30]\<rparr>"
  let ?s1 = "ringState\<lparr>bestPredecessor := node 22, bestPredecessorsSuccessor := node 30\<rparr>"
  have nf: "\<not> finished (base ringState)" by (simp add: ringState_def ringLookup_def)
  have u: "updateBrackets ?msg ringState = Inr ?s1"
    by (simp add: updateBrackets_def getClosestNodesArraySize_def getClosestNodes_def
        isBetween_def clockwiseSteps_def distance_def ringState_def ringLookup_def node_def
        Let_def)
  have b: "base ringState = ringLookup" by (simp add: ringState_def)
  have "\<not> concludes (?s1\<lparr>base := markVisited ?msg ringLookup\<rparr>)"
    by (simp add: concludes_def bracketsCorroborate_def deadBlockers_def ringState_def
        ringLookup_def markVisited_def node_def)
  then have "checkFalseNegative (?s1\<lparr>base := markVisited ?msg ringLookup\<rparr>)
      = ?s1\<lparr>base := markVisited ?msg ringLookup\<rparr>"
    by (simp add: checkFalseNegative_cases)
  with handleResponse_unfinished [OF nf u, of markVisited] b show ?thesis by simp
qed

theorem monotonic_tightening_witness:
  "(\<forall>m l. lookupKey (markVisited m l) = lookupKey l)
   \<and> (\<forall>m d r l. lookupKey (markDead m d r l) = lookupKey l)
   \<and> key (bestPredecessor ringState) \<noteq> lookupKey (base ringState)
   \<and> key (bestSuccessor ringState) \<noteq> lookupKey (base ringState)
   \<and> distanceBefore ringState = 5 \<and> distanceAfter ringState = 15
   \<and> (\<exists>s'. deliverAll markVisited markDead
               [Response \<lparr>srcNode = node 22, closestNodes = [node 30]\<rparr>] ringState = Inr s'
          \<and> distanceBefore s' = 3 \<and> distanceAfter s' = 15
          \<and> distanceBefore s' \<le> distanceBefore ringState
          \<and> distanceAfter s' \<le> distanceAfter ringState)"
proof -
  let ?msg = "\<lparr>srcNode = node 22, closestNodes = [node 30]\<rparr>"
  let ?s' = "ringState\<lparr>bestPredecessor := node 22, bestPredecessorsSuccessor := node 30,
             base := markVisited ?msg ringLookup\<rparr>"
  have k: "\<And>m l. lookupKey (markVisited m l) = lookupKey l"
    "\<And>m d r l. lookupKey (markDead m d r l) = lookupKey l"
    by (simp_all add: markVisited_def markDead_def)
  have r: "key (bestPredecessor ringState) \<noteq> lookupKey (base ringState)"
    "key (bestSuccessor ringState) \<noteq> lookupKey (base ringState)"
    "distanceBefore ringState = 5" "distanceAfter ringState = 15"
    by (simp_all add: distanceBefore_def distanceAfter_def distance_def ringState_def
        ringLookup_def node_def)
  have d: "deliverAll markVisited markDead [Response ?msg] ringState = Inr ?s'"
    by (simp add: ringState_answer_22)
  have v: "distanceBefore ?s' = 3" "distanceAfter ?s' = 15"
    by (simp_all add: distanceBefore_def distanceAfter_def distance_def ringState_def
        ringLookup_def markVisited_def node_def)
  from monotonic_tightening [of markVisited markDead "[Response ?msg]" ringState ?s', OF k d] r
  have "distanceBefore ?s' \<le> distanceBefore ringState
      \<and> distanceAfter ?s' \<le> distanceAfter ringState"
    by blast
  with k r d v show ?thesis by blast
qed

text \<open>
  The claim as the specification words it holds for every path lookup. A peer that
  looks up its own key starts with both brackets on the target, at distance 0 on both
  sides (\<open>ownKeyState\<close>, key 25). Every other key lies between the target and itself,
  so the answer of peer 20 becomes \<open>bestPredecessor\<close>, 5 keys before the target, and
  the answer of peer 30 that follows becomes \<open>bestSuccessor\<close>, 5 keys after it.
\<close>

theorem monotonic_tightening_counterexample:
  "distanceBefore ownKeyState = 0 \<and> distanceAfter ownKeyState = 0
   \<and> (case deliverAll markVisited markDead
            [Response \<lparr>srcNode = node 20, closestNodes = [node 30]\<rparr>,
             Response \<lparr>srcNode = node 30, closestNodes = [node 20]\<rparr>] ownKeyState of
         Inl e \<Rightarrow> False
       | Inr s' \<Rightarrow> bestPredecessor s' = node 20 \<and> bestSuccessor s' = node 30
                  \<and> distanceBefore s' = 5 \<and> distanceAfter s' = 5)"
proof -
  let ?m1 = "\<lparr>srcNode = node 20, closestNodes = [node 30]\<rparr>"
  let ?m2 = "\<lparr>srcNode = node 30, closestNodes = [node 20]\<rparr>"
  let ?l0 = "base ownKeyState"
  let ?s1 = "ownKeyState\<lparr>bestPredecessor := node 20, bestPredecessorsSuccessor := node 30,
               base := markVisited ?m1 ?l0\<rparr>"
  let ?s2 = "?s1\<lparr>bestSuccessor := node 30, bestSuccessorsPredecessor := node 20,
               base := markVisited ?m2 (markVisited ?m1 ?l0)\<rparr>"
  have z: "distanceBefore ownKeyState = 0" "distanceAfter ownKeyState = 0"
    by (simp_all add: distanceBefore_def distanceAfter_def distance_def ownKeyState_def
        newPathLookup_def ringLookup_def node_def)
  have nf: "\<not> finished (base ownKeyState)" "\<not> finished (base ?s1)"
    by (simp_all add: ownKeyState_def newPathLookup_def ringLookup_def markVisited_def)
  have u1: "updateBrackets ?m1 ownKeyState
      = Inr (ownKeyState\<lparr>bestPredecessor := node 20, bestPredecessorsSuccessor := node 30\<rparr>)"
    by (simp add: updateBrackets_def getClosestNodesArraySize_def getClosestNodes_def
        isBetween_def clockwiseSteps_def distance_def ownKeyState_def newPathLookup_def
        ringLookup_def node_def Let_def)
  have e1: "getPreceedingEntry defaultIncDead defaultIncUsed ?s1 = None"
    by (simp add: getPreceedingEntry_def ownKeyState_def newPathLookup_def ringLookup_def
        markVisited_def)
  then have c1: "checkFalseNegative ?s1 = ?s1"
    by (simp add: checkFalseNegative_cases concludes_def surroundingVisited_def)
  have h1: "handleResponse markVisited ?m1 ownKeyState = Inr ?s1"
    using handleResponse_unfinished [OF nf(1) u1, of markVisited] c1 by simp
  have u2: "updateBrackets ?m2 ?s1
      = Inr (?s1\<lparr>bestSuccessor := node 30, bestSuccessorsPredecessor := node 20\<rparr>)"
    by (simp add: updateBrackets_def getClosestNodesArraySize_def getClosestNodes_def
        isBetween_def clockwiseSteps_def distance_def ownKeyState_def newPathLookup_def
        ringLookup_def markVisited_def node_def Let_def)
  have e2: "getPreceedingEntry defaultIncDead defaultIncUsed ?s2 = None"
    by (simp add: getPreceedingEntry_def ownKeyState_def newPathLookup_def ringLookup_def
        markVisited_def)
  then have c2: "checkFalseNegative ?s2 = ?s2"
    by (simp add: checkFalseNegative_cases concludes_def surroundingVisited_def)
  have b1: "base ?s1 = markVisited ?m1 ?l0" by simp
  have h2: "handleResponse markVisited ?m2 ?s1 = Inr ?s2"
    using handleResponse_unfinished [OF nf(2) u2, of markVisited] c2 by (simp add: b1)
  have d: "deliverAll markVisited markDead [Response ?m1, Response ?m2] ownKeyState = Inr ?s2"
    by (simp add: h1 h2)
  have v: "bestPredecessor ?s2 = node 20" "bestSuccessor ?s2 = node 30"
    "distanceBefore ?s2 = 5" "distanceAfter ?s2 = 5"
    by (simp_all add: distanceBefore_def distanceAfter_def distance_def ownKeyState_def
        newPathLookup_def ringLookup_def markVisited_def node_def)
  from z d v show ?thesis by simp
qed

section \<open>Next-hop selection\<close>

lemma getSucceedingEntry_unique:
  assumes "q \<in> set (nextHops (base s))" and "eligible incDead incUsed (base s) q"
    and "entryDistance (base s) q < getMax"
    and "\<forall>x\<in>set (nextHops (base s)). eligible incDead incUsed (base s) x \<and> x \<noteq> q \<longrightarrow>
           entryDistance (base s) q < entryDistance (base s) x"
  shows "getSucceedingEntry incDead incUsed s = Some q"
proof (cases "getSucceedingEntry incDead incUsed s")
  case None
  with assms(1-3) show ?thesis by (auto simp: getSucceedingEntry_None)
next
  case (Some e)
  from getSucceedingEntry_Some [OF Some] assms(1,2)
  have e: "e \<in> set (nextHops (base s))" "eligible incDead incUsed (base s) e"
    "entryDistance (base s) e \<le> entryDistance (base s) q"
    by auto
  have "e = q"
  proof (rule ccontr)
    assume "e \<noteq> q"
    with assms(4) e(1,2) have "entryDistance (base s) q < entryDistance (base s) e" by blast
    with e(3) show False by simp
  qed
  with Some show ?thesis by simp
qed

text \<open>
  Claim C8. The next hop is the succeeding entry whenever there is one and it was not
  probed; otherwise it is what the engine's default selection returns. The succeeding
  entry is an alive candidate, probed or not, whose forward distance from the target is
  below the maximum key and the smallest among the alive candidates; there is none
  exactly when every alive candidate is at the maximal distance. In particular an
  alive candidate that was not probed and whose forward distance is smaller than that
  of every other alive candidate is returned, whatever the default selection prefers:
  a candidate just after the target wins over one just before it.
\<close>

theorem next_hop_selection:
  "(\<forall>q. getSucceedingEntry False True s = Some q \<and> \<not> alreadyUsed q \<longrightarrow>
        getNextEntry bgne s = Some q)
   \<and> (\<forall>q. getSucceedingEntry False True s = Some q \<and> alreadyUsed q \<longrightarrow>
        getNextEntry bgne s = bgne (base s))
   \<and> (getSucceedingEntry False True s = None \<longrightarrow> getNextEntry bgne s = bgne (base s))
   \<and> (\<forall>q. getSucceedingEntry False True s = Some q \<longrightarrow>
        q \<in> set (nextHops (base s)) \<and> \<not> getDead (base s) (handle q)
        \<and> entryDistance (base s) q < getMax
        \<and> (\<forall>x\<in>set (nextHops (base s)). \<not> getDead (base s) (handle x) \<longrightarrow>
              entryDistance (base s) q \<le> entryDistance (base s) x))
   \<and> (getSucceedingEntry False True s = None \<longleftrightarrow>
        (\<forall>x\<in>set (nextHops (base s)). \<not> getDead (base s) (handle x) \<longrightarrow>
              entryDistance (base s) x = getMax))
   \<and> (\<forall>q. q \<in> set (nextHops (base s)) \<and> \<not> getDead (base s) (handle q)
        \<and> \<not> alreadyUsed q \<and> entryDistance (base s) q < getMax
        \<and> (\<forall>x\<in>set (nextHops (base s)). \<not> getDead (base s) (handle x) \<and> x \<noteq> q \<longrightarrow>
              entryDistance (base s) q < entryDistance (base s) x) \<longrightarrow>
        getNextEntry bgne s = Some q)"
proof -
  have el: "\<And>x. eligible False True (base s) x = (\<not> getDead (base s) (handle x))"
    by (simp add: eligible_def)
  have 1: "\<forall>q. getSucceedingEntry False True s = Some q \<and> \<not> alreadyUsed q \<longrightarrow>
        getNextEntry bgne s = Some q"
    by (simp add: getNextEntry_def)
  have 2: "\<forall>q. getSucceedingEntry False True s = Some q \<and> alreadyUsed q \<longrightarrow>
        getNextEntry bgne s = bgne (base s)"
    by (simp add: getNextEntry_def)
  have 3: "getSucceedingEntry False True s = None \<longrightarrow> getNextEntry bgne s = bgne (base s)"
    by (simp add: getNextEntry_def)
  have 4: "\<forall>q. getSucceedingEntry False True s = Some q \<longrightarrow>
        q \<in> set (nextHops (base s)) \<and> \<not> getDead (base s) (handle q)
        \<and> entryDistance (base s) q < getMax
        \<and> (\<forall>x\<in>set (nextHops (base s)). \<not> getDead (base s) (handle x) \<longrightarrow>
              entryDistance (base s) q \<le> entryDistance (base s) x)"
    using getSucceedingEntry_Some [of False True s] by (simp add: el)
  have 5: "getSucceedingEntry False True s = None \<longleftrightarrow>
        (\<forall>x\<in>set (nextHops (base s)). \<not> getDead (base s) (handle x) \<longrightarrow>
              entryDistance (base s) x = getMax)"
    using getSucceedingEntry_None [of False True s] by (simp add: el)
  have 6: "getNextEntry bgne s = Some q"
    if "q \<in> set (nextHops (base s))" "\<not> getDead (base s) (handle q)" "\<not> alreadyUsed q"
      "entryDistance (base s) q < getMax"
      "\<forall>x\<in>set (nextHops (base s)). \<not> getDead (base s) (handle x) \<and> x \<noteq> q \<longrightarrow>
              entryDistance (base s) q < entryDistance (base s) x" for q
  proof -
    have "getSucceedingEntry False True s = Some q"
      by (rule getSucceedingEntry_unique) (use that in \<open>simp_all add: el\<close>)
    with that(3) show ?thesis by (simp add: getNextEntry_def)
  qed
  from 1 2 3 4 5 6 show ?thesis by blast
qed

theorem next_hop_selection_witness:
  "nextHops (base biasState) = [candidate 23 False, candidate 35 False]
   \<and> \<not> getDead (base biasState) (handle (candidate 23 False))
   \<and> \<not> getDead (base biasState) (handle (candidate 35 False))
   \<and> entryDistance (base biasState) (candidate 23 False) = 254
   \<and> entryDistance (base biasState) (candidate 35 False) = 10
   \<and> closestUnused (base biasState) = Some (candidate 23 False)
   \<and> getNextEntry closestUnused biasState = Some (candidate 35 False)"
proof -
  have p: "nextHops (base biasState) = [candidate 23 False, candidate 35 False]"
    "\<not> getDead (base biasState) (handle (candidate 23 False))"
    "\<not> getDead (base biasState) (handle (candidate 35 False))"
    "\<not> alreadyUsed (candidate 35 False)"
    "closestUnused (base biasState) = Some (candidate 23 False)"
    by (simp_all add: biasState_def ringState_def ringLookup_def candidate_def node_def
        getDead_def closestUnused_def)
  have d: "entryDistance (base biasState) (candidate 23 False) = 254"
    "entryDistance (base biasState) (candidate 35 False) = 10"
    by (simp_all add: entryDistance_def distance_def biasState_def ringState_def
        ringLookup_def candidate_def node_def)
  have m: "entryDistance (base biasState) (candidate 35 False) < getMax"
    "entryDistance (base biasState) (candidate 35 False)
       < entryDistance (base biasState) (candidate 23 False)"
    by (simp_all add: d getMax_def word_less_def uint_minus_one_word8)
  have "\<forall>x\<in>set (nextHops (base biasState)).
      \<not> getDead (base biasState) (handle x) \<and> x \<noteq> candidate 35 False \<longrightarrow>
        entryDistance (base biasState) (candidate 35 False) < entryDistance (base biasState) x"
    using m(2) by (simp add: p(1))
  with next_hop_selection [of biasState closestUnused] p m(1)
  have "getNextEntry closestUnused biasState = Some (candidate 35 False)"
    by simp
  with p d show ?thesis by blast
qed

section \<open>Termination of the lookup\<close>

lemma deliver_finished:
  "finished (base s) \<Longrightarrow> deliver bhr bht ev s = Inr s"
  by (cases ev) (simp_all add: handleResponse_def handleTimeout_def)

lemma deliverAll_finished:
  "finished (base s) \<Longrightarrow> deliverAll bhr bht evs s = Inr s"
  by (induction evs) (simp_all add: deliver_finished)

text \<open>
  Claim C9. Once \<open>finished\<close> is set the lookup is terminal: a further response or
  timeout, and any sequence of them, returns the state as it was: brackets, candidate
  flags, \<open>success\<close> and \<open>finished\<close>, siblings and warnings sent are all unchanged.
\<close>

theorem finished_is_terminal:
  "finished (base s) \<Longrightarrow>
     handleResponse bhr msg s = Inr s
     \<and> handleTimeout bht m dest rpcId s = s
     \<and> deliverAll bhr bht evs s = Inr s"
  by (simp add: handleResponse_def handleTimeout_def deliverAll_finished)

theorem finished_is_terminal_witness:
  "finished (base (ringState\<lparr>base := ringLookup\<lparr>finished := True\<rparr>\<rparr>))
   \<and> handleResponse markVisited \<lparr>srcNode = node 22, closestNodes = [node 30]\<rparr>
        (ringState\<lparr>base := ringLookup\<lparr>finished := True\<rparr>\<rparr>)
      = Inr (ringState\<lparr>base := ringLookup\<lparr>finished := True\<rparr>\<rparr>)
   \<and> handleTimeout markDead () 40 7 (ringState\<lparr>base := ringLookup\<lparr>finished := True\<rparr>\<rparr>)
      = ringState\<lparr>base := ringLookup\<lparr>finished := True\<rparr>\<rparr>
   \<and> deliverAll markVisited markDead
        [Timeout () 40 7, Response \<lparr>srcNode = node 22, closestNodes = [node 30]\<rparr>]
        (ringState\<lparr>base := ringLookup\<lparr>finished := True\<rparr>\<rparr>)
      = Inr (ringState\<lparr>base := ringLookup\<lparr>finished := True\<rparr>\<rparr>)"
  using finished_is_terminal [of "ringState\<lparr>base := ringLookup\<lparr>finished := True\<rparr>\<rparr>"
      markVisited "\<lparr>srcNode = node 22, closestNodes = [node 30]\<rparr>" markDead "()" 40 7
      "[Timeout () 40 7, Response \<lparr>srcNode = node 22, closestNodes = [node 30]\<rparr>]"]
  by simp

end
